theory Spec2Isabelle
  imports Main "HOL-Library.Word"
begin

unbundle bit_operations_syntax

section \<open>Machine memory and integers\<close>

text \<open>
  The kernel is built for x86-64: \<open>size_t\<close> and \<open>uintptr_t\<close> are 64-bit unsigned
  integers, modelled as natural numbers with the wrap-around written out. Memory is a
  flat array of bytes indexed by address; multi-byte fields are little-endian.
\<close>

type_synonym byte = "8 word"
type_synonym memory = "nat \<Rightarrow> byte"

definition u64 :: "nat \<Rightarrow> nat" where
  "u64 x = x mod 2 ^ 64"

definition u32 :: "nat \<Rightarrow> nat" where
  "u32 x = x mod 2 ^ 32"

definition sub64 :: "nat \<Rightarrow> nat \<Rightarrow> nat" where
  \<comment> \<open>unsigned 64-bit subtraction \<open>a - b\<close>\<close>
  "sub64 a b = (a + 2 ^ 64 - b mod 2 ^ 64) mod 2 ^ 64"

primrec rd_le :: "nat \<Rightarrow> memory \<Rightarrow> nat \<Rightarrow> nat" where
  "rd_le 0 m a = 0"
| "rd_le (Suc n) m a = unat (m a) + 256 * rd_le n m (Suc a)"

primrec wr_le :: "nat \<Rightarrow> nat \<Rightarrow> nat \<Rightarrow> memory \<Rightarrow> memory" where
  "wr_le 0 a v m = m"
| "wr_le (Suc n) a v m = wr_le n (Suc a) (v div 256) (m(a := of_nat v))"

definition memset :: "memory \<Rightarrow> nat \<Rightarrow> byte \<Rightarrow> nat \<Rightarrow> memory" where
  \<comment> \<open>lib/minstd.c \<open>memset\<close> on a non-null pointer: bytes \<open>s .. s + n - 1\<close> become \<open>c\<close>\<close>
  "memset m s c n = (\<lambda>x. if s \<le> x \<and> x < s + n then c else m x)"

definition memcpy :: "memory \<Rightarrow> nat \<Rightarrow> nat \<Rightarrow> nat \<Rightarrow> memory" where
  \<comment> \<open>lib/minstd.c \<open>memcpy\<close> on non-null pointers; it falls back to \<open>memmove\<close> when the
      regions overlap, so in every case the destination receives the old source bytes\<close>
  "memcpy m dest src n = (\<lambda>x. if dest \<le> x \<and> x < dest + n then m (src + (x - dest)) else m x)"

section \<open>The heap allocator (kernel/src/mm/kmalloc.c)\<close>

definition KERNEL_HEAP_SIZE :: nat where
  "KERNEL_HEAP_SIZE = 4 * 1024 * 1024"

definition ALLOC_MAGIC :: nat where
  "ALLOC_MAGIC = 0xABCD1234"

definition sizeof_alloc_header :: nat where
  \<comment> \<open>\<open>struct alloc_header { size_t size; uint32_t magic; bool used; }\<close> on x86-64:
      size at offset 0, magic at offset 8, used at offset 12, padded to 16 bytes\<close>
  "sizeof_alloc_header = 16"

definition MIN_ALLOC_SIZE :: nat where
  "MIN_ALLOC_SIZE = sizeof_alloc_header + 16"

definition NULL :: nat where
  "NULL = 0"

definition hsize :: "memory \<Rightarrow> nat \<Rightarrow> nat" where
  "hsize m h = rd_le 8 m h"

definition hmagic :: "memory \<Rightarrow> nat \<Rightarrow> nat" where
  "hmagic m h = rd_le 4 m (h + 8)"

definition hused :: "memory \<Rightarrow> nat \<Rightarrow> bool" where
  "hused m h = (m (h + 12) \<noteq> 0)"

definition set_hsize :: "nat \<Rightarrow> nat \<Rightarrow> memory \<Rightarrow> memory" where
  "set_hsize h v m = wr_le 8 h v m"

definition set_hmagic :: "nat \<Rightarrow> nat \<Rightarrow> memory \<Rightarrow> memory" where
  "set_hmagic h v m = wr_le 4 (h + 8) v m"

definition set_hused :: "nat \<Rightarrow> bool \<Rightarrow> memory \<Rightarrow> memory" where
  "set_hused h b m = m(h + 12 := (if b then 1 else 0))"

text \<open>Messages of \<open>kprintf\<close> and \<open>kerr\<close>, in the order they are printed.\<close>

datatype kmsg =
    MM_Initializing
  | MM_Initialized
  | MM_Corrupted nat
  | MM_OutOfMemory nat
  | MM_InvalidFree nat
  | MM_DoubleFree nat
  | MM_InvalidRealloc nat

record kheap =
  kernel_heap :: nat        \<comment> \<open>address of the static array \<open>kernel_heap\<close>\<close>
  mem :: memory
  heap_initialized :: bool
  heap_used :: nat
  klog :: "kmsg list"

definition heap_end :: "kheap \<Rightarrow> nat" where
  "heap_end s = kernel_heap s + KERNEL_HEAP_SIZE"

definition kmalloc_init :: "kheap \<Rightarrow> int \<times> kheap" where
  "kmalloc_init s =
    (if heap_initialized s then (0, s)
     else
       let m0 = memset (mem s) (kernel_heap s) 0 KERNEL_HEAP_SIZE;
           first_block = kernel_heap s;
           m1 = set_hsize first_block KERNEL_HEAP_SIZE m0;
           m2 = set_hmagic first_block ALLOC_MAGIC m1;
           m3 = set_hused first_block False m2
       in (0, s\<lparr>mem := m3, heap_used := 0, heap_initialized := True,
                 klog := klog s @ [MM_Initializing, MM_Initialized]\<rparr>))"

text \<open>
  The loop of \<open>find_free_block\<close>. It need not terminate (a block of size 0 is never
  left), so it is a partial function: \<open>None\<close> means that the loop runs forever.
  The result is the messages printed and the block found (\<open>NULL\<close> when none).
\<close>

partial_function (option) find_free_loop ::
    "memory \<Rightarrow> nat \<Rightarrow> nat \<Rightarrow> nat \<Rightarrow> (kmsg list \<times> nat) option" where
  "find_free_loop m hend sz current =
    (if current < hend then
       if hmagic m current \<noteq> ALLOC_MAGIC then Some ([MM_Corrupted current], NULL)
       else if \<not> hused m current \<and> sz \<le> hsize m current then Some ([], current)
       else find_free_loop m hend sz (u64 (current + hsize m current))
     else Some ([], NULL))"

definition find_free_block :: "nat \<Rightarrow> kheap \<Rightarrow> (kmsg list \<times> nat) option" where
  "find_free_block sz s = find_free_loop (mem s) (heap_end s) sz (kernel_heap s)"

definition split_block :: "nat \<Rightarrow> nat \<Rightarrow> memory \<Rightarrow> memory" where
  "split_block block sz m =
    (let m' =
       (if u64 (sz + MIN_ALLOC_SIZE) \<le> hsize m block then
          let new_block = u64 (block + sz);
              m1 = set_hsize new_block (sub64 (hsize m block) sz) m;
              m2 = set_hmagic new_block ALLOC_MAGIC m1;
              m3 = set_hused new_block False m2
          in set_hsize block sz m3
        else m)
     in set_hused block True m')"

definition align16 :: "nat \<Rightarrow> nat" where
  \<comment> \<open>\<open>(size + 15) & ~15\<close> on \<open>size_t\<close>\<close>
  "align16 sz = u64 (sz + 15) - u64 (sz + 15) mod 16"

definition kmalloc :: "nat \<Rightarrow> kheap \<Rightarrow> (nat \<times> kheap) option" where
  "kmalloc sz s =
    (if sz = 0 then Some (NULL, s)
     else
       let s1 = (if \<not> heap_initialized s then snd (kmalloc_init s) else s);
           size' = align16 sz;
           total_size = u64 (size' + sizeof_alloc_header)
       in case find_free_block total_size s1 of
            None \<Rightarrow> None
          | Some (msgs, block) \<Rightarrow>
              if block = NULL
              then Some (NULL, s1\<lparr>klog := klog s1 @ msgs @ [MM_OutOfMemory size']\<rparr>)
              else
                let m2 = split_block block total_size (mem s1)
                in Some (u64 (block + sizeof_alloc_header),
                         s1\<lparr>mem := m2, heap_used := u64 (heap_used s1 + hsize m2 block),
                            klog := klog s1 @ msgs\<rparr>))"

definition kzalloc :: "nat \<Rightarrow> kheap \<Rightarrow> (nat \<times> kheap) option" where
  "kzalloc sz s =
    (case kmalloc sz s of
       None \<Rightarrow> None
     | Some (ptr, s1) \<Rightarrow>
         if ptr \<noteq> NULL then Some (ptr, s1\<lparr>mem := memset (mem s1) ptr 0 sz\<rparr>)
         else Some (ptr, s1))"

definition validate_block :: "kheap \<Rightarrow> nat \<Rightarrow> bool" where
  "validate_block s header =
    (if header < kernel_heap s \<or> heap_end s \<le> header then False
     else if hmagic (mem s) header \<noteq> ALLOC_MAGIC then False
     else if hsize (mem s) header < sizeof_alloc_header
             \<or> heap_end s < u64 (header + hsize (mem s) header) then False
     else True)"

definition merge_blocks :: "nat \<Rightarrow> kheap \<Rightarrow> kheap" where
  "merge_blocks block s =
    (let next_block = u64 (block + hsize (mem s) block)
     in if heap_end s \<le> next_block then s
        else if \<not> validate_block s next_block then s
        else if \<not> hused (mem s) next_block then
          let m1 = set_hsize block (u64 (hsize (mem s) block + hsize (mem s) next_block)) (mem s);
              m2 = set_hmagic next_block 0 m1
          in s\<lparr>mem := m2\<rparr>
        else s)"

definition kfree :: "nat \<Rightarrow> kheap \<Rightarrow> kheap" where
  "kfree ptr s =
    (if ptr = NULL \<or> \<not> heap_initialized s then s
     else
       let header = sub64 ptr sizeof_alloc_header
       in if \<not> validate_block s header then s\<lparr>klog := klog s @ [MM_InvalidFree ptr]\<rparr>
          else if \<not> hused (mem s) header then s\<lparr>klog := klog s @ [MM_DoubleFree ptr]\<rparr>
          else
            let s1 = s\<lparr>mem := set_hused header False (mem s)\<rparr>;
                s2 = s1\<lparr>heap_used := sub64 (heap_used s1) (hsize (mem s1) header)\<rparr>
            in merge_blocks header s2)"

definition krealloc :: "nat \<Rightarrow> nat \<Rightarrow> kheap \<Rightarrow> (nat \<times> kheap) option" where
  "krealloc ptr sz s =
    (if ptr = NULL then kmalloc sz s
     else if sz = 0 then Some (NULL, kfree ptr s)
     else
       let header = sub64 ptr sizeof_alloc_header
       in if \<not> validate_block s header
          then Some (NULL, s\<lparr>klog := klog s @ [MM_InvalidRealloc ptr]\<rparr>)
          else
            let curr_size = sub64 (hsize (mem s) header) sizeof_alloc_header
            in if sz \<le> curr_size then Some (ptr, s)
               else case kmalloc sz s of
                      None \<Rightarrow> None
                    | Some (new_ptr, s1) \<Rightarrow>
                        if new_ptr = NULL then Some (NULL, s1)
                        else
                          let s2 = s1\<lparr>mem := memcpy (mem s1) new_ptr ptr curr_size\<rparr>
                          in Some (new_ptr, kfree ptr s2))"

definition kmalloc_stats :: "kheap \<Rightarrow> (nat \<times> nat \<times> nat) option" where
  \<comment> \<open>\<open>None\<close> is the return value -1; otherwise (total, used, free)\<close>
  "kmalloc_stats s =
    (if \<not> heap_initialized s then None
     else Some (KERNEL_HEAP_SIZE, heap_used s, sub64 KERNEL_HEAP_SIZE (heap_used s)))"

subsection \<open>The block sequence of the arena\<close>

text \<open>
  The arena read as a sequence of blocks: \<open>blocks_at m a bs\<close> says that, from address
  \<open>a\<close>, memory \<open>m\<close> holds headers with a valid magic whose sizes and used
  flags are those of \<open>bs\<close>, each block starting where the previous one ends.
\<close>

fun blocks_at :: "memory \<Rightarrow> nat \<Rightarrow> (nat \<times> bool) list \<Rightarrow> bool" where
  "blocks_at m a [] = True"
| "blocks_at m a (b # bs) =
    (hmagic m a = ALLOC_MAGIC \<and> hsize m a = fst b \<and> hused m a = snd b
     \<and> sizeof_alloc_header \<le> fst b \<and> blocks_at m (a + fst b) bs)"

definition extent :: "(nat \<times> bool) list \<Rightarrow> nat" where
  "extent bs = sum_list (map fst bs)"

fun first_fit :: "nat \<Rightarrow> nat \<Rightarrow> (nat \<times> bool) list \<Rightarrow> nat option" where
  "first_fit t a [] = None"
| "first_fit t a (b # bs) =
    (if \<not> snd b \<and> t \<le> fst b then Some a else first_fit t (a + fst b) bs)"

fun alloc_in :: "nat \<Rightarrow> (nat \<times> bool) list \<Rightarrow> (nat \<times> bool) list" where
  "alloc_in t [] = []"
| "alloc_in t (b # bs) =
    (if \<not> snd b \<and> t \<le> fst b
     then (if t + MIN_ALLOC_SIZE \<le> fst b then (t, True) # (fst b - t, False) # bs
           else (fst b, True) # bs)
     else b # alloc_in t bs)"


definition heap_layout :: "kheap \<Rightarrow> (nat \<times> bool) list \<Rightarrow> bool" where
  \<comment> \<open>the initialised arena, walked from its base, is exactly the block sequence \<open>bs\<close>\<close>
  "heap_layout s bs =
    (0 < kernel_heap s \<and> heap_end s < 2 ^ 64 \<and> heap_initialized s
     \<and> blocks_at (mem s) (kernel_heap s) bs \<and> extent bs = KERNEL_HEAP_SIZE)"

definition coalesce :: "nat \<Rightarrow> (nat \<times> bool) list \<Rightarrow> (nat \<times> bool) list" where
  \<comment> \<open>a block of size \<open>sz\<close> that has just been freed, in front of the blocks \<open>post\<close>:
      it absorbs the block that follows it when that one is free\<close>
  "coalesce sz post =
    (case post of
       [] \<Rightarrow> [(sz, False)]
     | c # cs \<Rightarrow> if snd c then (sz, False) # c # cs else (sz + fst c, False) # cs)"

definition heap_ok :: "kheap \<Rightarrow> bool" where
  \<comment> \<open>the arena lies inside the address space and, once initialised, is a block sequence\<close>
  "heap_ok s =
    (0 < kernel_heap s \<and> heap_end s < 2 ^ 64
     \<and> (heap_initialized s \<longrightarrow> (\<exists>bs. heap_layout s bs)))"

subsection \<open>Concrete heaps used to exercise the allocator\<close>

definition fresh_heap :: kheap where
  \<comment> \<open>the arena at address \<open>0x100000\<close>, before \<open>kmalloc_init\<close>\<close>
  "fresh_heap = \<lparr>kernel_heap = 0x100000, mem = (\<lambda>_. 0), heap_initialized = False,
                  heap_used = 0, klog = []\<rparr>"

definition heap_a :: kheap where
  "heap_a = snd (the (kmalloc 16 fresh_heap))"

definition heap_ab :: kheap where
  "heap_ab = snd (the (kmalloc 16 heap_a))"

definition heap_abc :: kheap where
  "heap_abc = snd (the (kmalloc 16 heap_ab))"

section \<open>The EXT4 reader (fs/ext4/ext4.c)\<close>

text \<open>
  The reader runs against an environment: the block device, supplied from outside, and
  the allocator. The device is a function from a request (byte offset, size, and the
  buffer handed in) to a status and the buffer as the device leaves it. Of \<open>kmalloc\<close>
  the reader relies on its interface only: a request of size 0 yields \<open>NULL\<close>, any
  other request yields \<open>NULL\<close> or a fresh buffer whose contents are unspecified.
  The \<open>world\<close> records the live allocations, the outcome of each future allocation
  (\<open>alloc_plan\<close>: \<open>None\<close> for \<open>NULL\<close>, else the initial contents of the buffer), the
  device reads issued so far with their status, and the contents of uninitialised locals.
  A buffer is a \<open>memory\<close> indexed from its first byte; what lies behind its last byte is
  whatever follows it in memory.

  A function returns \<open>None\<close> when the C function does not return: a division by zero
  (a CPU fault) or a loop that never ends.
\<close>

record block_device =
  dev_read :: "nat \<Rightarrow> nat \<Rightarrow> memory \<Rightarrow> int \<times> memory"

record world =
  live :: "nat list"
  next_alloc :: nat
  alloc_plan :: "nat \<Rightarrow> memory option"
  dev_log :: "(nat \<times> nat \<times> int) list"
  stack_junk :: memory

definition kmalloc_w :: "nat \<Rightarrow> world \<Rightarrow> (nat \<times> memory) option \<times> world" where
  "kmalloc_w sz w =
    (if sz = 0 then (None, w)
     else case alloc_plan w (next_alloc w) of
            None \<Rightarrow> (None, w\<lparr>next_alloc := Suc (next_alloc w)\<rparr>)
          | Some junk \<Rightarrow>
              (Some (next_alloc w, junk),
               w\<lparr>next_alloc := Suc (next_alloc w), live := next_alloc w # live w\<rparr>))"

definition kfree_w :: "nat \<Rightarrow> world \<Rightarrow> world" where
  "kfree_w h w = w\<lparr>live := remove1 h (live w)\<rparr>"

definition device_read ::
    "block_device \<Rightarrow> nat \<Rightarrow> nat \<Rightarrow> memory \<Rightarrow> world \<Rightarrow> (int \<times> memory) \<times> world" where
  \<comment> \<open>\<open>device->ops->read(device, offset, size, buffer)\<close>\<close>
  "device_read d off sz buf w =
    (let r = dev_read d off sz buf in (r, w\<lparr>dev_log := dev_log w @ [(off, sz, fst r)]\<rparr>))"

subsection \<open>On-disk structures (fs/ext4/ext4.h)\<close>

definition EXT4_FEATURE_INCOMPAT_EXTENTS :: nat where "EXT4_FEATURE_INCOMPAT_EXTENTS = 0x0040"
definition EXT4_EXTENT_HEADER_MAGIC :: nat where "EXT4_EXTENT_HEADER_MAGIC = 0xF30A"
definition EXT4_EXTENTS_FL :: nat where "EXT4_EXTENTS_FL = 0x80000"
definition VFS_NAME_MAX :: nat where "VFS_NAME_MAX = 255"

definition VFS_FILE :: nat where "VFS_FILE = 1"
definition VFS_DIRECTORY :: nat where "VFS_DIRECTORY = 2"
definition VFS_CHARDEVICE :: nat where "VFS_CHARDEVICE = 3"
definition VFS_BLOCKDEVICE :: nat where "VFS_BLOCKDEVICE = 4"
definition VFS_PIPE :: nat where "VFS_PIPE = 5"
definition VFS_SYMLINK :: nat where "VFS_SYMLINK = 6"
definition VFS_SOCKET :: nat where "VFS_SOCKET = 9"

definition sizeof_ext4_extent_node :: nat where "sizeof_ext4_extent_node = 60"

text \<open>The packed superblock: the fields the reader uses, at their byte offsets.\<close>

record ext4_superblock =
  s_blocks_count_lo :: nat
  s_first_data_block :: nat
  s_log_block_size :: nat
  s_blocks_per_group :: nat
  s_inodes_per_group :: nat
  s_magic :: nat
  s_inode_size :: nat
  s_feature_incompat :: nat
  s_desc_size :: nat
  s_blocks_count_hi :: nat


definition i_size_lo :: "memory \<Rightarrow> nat" where "i_size_lo ino = rd_le 4 ino 4"
definition i_flags :: "memory \<Rightarrow> nat" where "i_flags ino = rd_le 4 ino 32"
definition i_block :: "memory \<Rightarrow> memory" where "i_block ino = (\<lambda>i. ino (40 + i))"
definition i_size_high :: "memory \<Rightarrow> nat" where "i_size_high ino = rd_le 4 ino 108"

definition inode_file_size :: "memory \<Rightarrow> nat" where
  \<comment> \<open>\<open>inode->i_size_lo | ((uint64_t)inode->i_size_high << 32)\<close>\<close>
  "inode_file_size ino = i_size_lo ino OR push_bit 32 (i_size_high ino)"

text \<open>An extent node, read in place from a buffer: header, then 12-byte entries.\<close>

definition eh_magic :: "memory \<Rightarrow> nat" where "eh_magic b = rd_le 2 b 0"
definition eh_entries :: "memory \<Rightarrow> nat" where "eh_entries b = rd_le 2 b 2"
definition eh_depth :: "memory \<Rightarrow> nat" where "eh_depth b = rd_le 2 b 6"

definition ei_block :: "memory \<Rightarrow> nat \<Rightarrow> nat" where "ei_block b i = rd_le 4 b (12 + 12 * i)"
definition ei_leaf_lo :: "memory \<Rightarrow> nat \<Rightarrow> nat" where "ei_leaf_lo b i = rd_le 4 b (12 + 12 * i + 4)"
definition ei_leaf_hi :: "memory \<Rightarrow> nat \<Rightarrow> nat" where "ei_leaf_hi b i = rd_le 2 b (12 + 12 * i + 8)"

definition ee_block :: "memory \<Rightarrow> nat \<Rightarrow> nat" where "ee_block b i = rd_le 4 b (12 + 12 * i)"
definition ee_len :: "memory \<Rightarrow> nat \<Rightarrow> nat" where "ee_len b i = rd_le 2 b (12 + 12 * i + 4)"
definition ee_start_hi :: "memory \<Rightarrow> nat \<Rightarrow> nat" where "ee_start_hi b i = rd_le 2 b (12 + 12 * i + 6)"
definition ee_start_lo :: "memory \<Rightarrow> nat \<Rightarrow> nat" where "ee_start_lo b i = rd_le 4 b (12 + 12 * i + 8)"

text \<open>A directory entry at byte offset \<open>off\<close> of a directory block.\<close>

definition de_inode :: "memory \<Rightarrow> nat \<Rightarrow> nat" where "de_inode b off = rd_le 4 b off"
definition de_rec_len :: "memory \<Rightarrow> nat \<Rightarrow> nat" where "de_rec_len b off = rd_le 2 b (off + 4)"
definition de_name_len :: "memory \<Rightarrow> nat \<Rightarrow> nat" where "de_name_len b off = unat (b (off + 6))"
definition de_file_type :: "memory \<Rightarrow> nat \<Rightarrow> nat" where "de_file_type b off = unat (b (off + 7))"
definition de_name :: "memory \<Rightarrow> nat \<Rightarrow> memory" where "de_name b off = (\<lambda>i. b (off + 8 + i))"

record ext4_fs =
  device :: block_device
  sb :: ext4_superblock
  block_size :: nat
  block_count :: nat
  groups_count :: nat
  inodes_per_group :: nat
  blocks_per_group :: nat
  group_desc_table :: memory
  gdt_alloc :: nat            \<comment> \<open>the allocation behind \<open>group_desc_table\<close>\<close>
  fs_alloc :: nat             \<comment> \<open>the allocation behind the \<open>ext4_fs_t\<close> itself\<close>

record ext4_inode_info =
  raw_inode :: memory
  inode_num :: nat
  info_fs :: ext4_fs

record vfs_node =
  v_type :: nat
  v_size :: nat
  v_inode :: nat
  private_data :: "(nat \<times> ext4_inode_info) option"   \<comment> \<open>allocation and contents, or \<open>NULL\<close>\<close>

record vfs_dirent =
  d_name :: memory            \<comment> \<open>\<open>char name[VFS_NAME_MAX + 1]\<close> and what follows it\<close>
  d_inode :: nat
  d_type :: nat

subsection \<open>Blocks and inodes\<close>

definition ext4_read_block ::
    "ext4_fs \<Rightarrow> nat \<Rightarrow> memory \<Rightarrow> world \<Rightarrow> (int \<times> memory) \<times> world" where
  "ext4_read_block fs block_num buffer w =
    device_read (device fs) (u64 (block_num * block_size fs)) (block_size fs) buffer w"







subsection \<open>Extent resolution\<close>

text \<open>
  The \<open>for\<close> loop that picks the index entry of an internal node: it stops at the
  first \<open>i\<close> that is the last entry or whose successor starts beyond \<open>block_num\<close>.
\<close>

function pick_index :: "memory \<Rightarrow> nat \<Rightarrow> nat \<Rightarrow> nat" where
  "pick_index buf block_num i =
    (if i < eh_entries buf
     then if i + 1 < eh_entries buf \<and> ei_block buf (i + 1) \<le> block_num
          then pick_index buf block_num (i + 1)
          else i
     else i)"
  by pat_completeness auto
termination
  by (relation "measure (\<lambda>(buf, block_num, i). eh_entries buf - i)") auto

text \<open>
  The \<open>while (depth > 0)\<close> loop. It returns 0 and the leaf node in the buffer, or the
  error with the buffer already freed.
\<close>

primrec extent_descend ::
    "ext4_fs \<Rightarrow> nat \<Rightarrow> nat \<Rightarrow> nat \<Rightarrow> memory \<Rightarrow> world \<Rightarrow> (int \<times> memory) \<times> world" where
  "extent_descend fs block_num h 0 buf w = ((0, buf), w)"
| "extent_descend fs block_num h (Suc depth) buf w =
    (let i = pick_index buf block_num 0
     in if eh_entries buf \<le> i then ((- 1, buf), kfree_w h w)
        else
          let node_block = ei_leaf_lo buf i OR push_bit 32 (ei_leaf_hi buf i)
          in case ext4_read_block fs node_block buf w of
               ((result, buf'), w1) \<Rightarrow>
                 if result < 0 then ((result, buf'), kfree_w h w1)
                 else if eh_magic buf' \<noteq> EXT4_EXTENT_HEADER_MAGIC
                 then ((- 1, buf'), kfree_w h w1)
                 else extent_descend fs block_num h depth buf' w1)"

text \<open>
  The scan of a leaf: the first extent \<open>i\<close> with
  \<open>block_num >= ee_block && block_num < ee_block + ee_len\<close>, the sum taken in 32 bits.
\<close>

function leaf_scan :: "memory \<Rightarrow> nat \<Rightarrow> nat \<Rightarrow> nat option" where
  "leaf_scan buf block_num i =
    (if i < eh_entries buf
     then if ee_block buf i \<le> block_num \<and> block_num < u32 (ee_block buf i + ee_len buf i)
          then Some i
          else leaf_scan buf block_num (i + 1)
     else None)"
  by pat_completeness auto
termination
  by (relation "measure (\<lambda>(buf, block_num, i). eh_entries buf - i)") auto

definition ext4_read_extent_block ::
    "ext4_fs \<Rightarrow> memory \<Rightarrow> nat \<Rightarrow> nat \<Rightarrow> world \<Rightarrow> (int \<times> nat) \<times> world" where
  \<comment> \<open>the status and \<open>*phys_block\<close>, which is written on success only\<close>
  "ext4_read_extent_block fs inode block_num phys_block w =
    (if s_feature_incompat (sb fs) AND EXT4_FEATURE_INCOMPAT_EXTENTS = 0
     then ((- 1, phys_block), w)
     else if i_flags inode AND EXT4_EXTENTS_FL = 0 then ((- 1, phys_block), w)
     else if eh_magic (i_block inode) \<noteq> EXT4_EXTENT_HEADER_MAGIC then ((- 1, phys_block), w)
     else case kmalloc_w (block_size fs) w of
            (None, w1) \<Rightarrow> ((- 1, phys_block), w1)
          | (Some (h, junk), w1) \<Rightarrow>
              let extent_buffer = (\<lambda>i. if i < sizeof_ext4_extent_node then i_block inode i
                                        else junk i)
              in case extent_descend fs block_num h (eh_depth extent_buffer) extent_buffer w1 of
                   ((result, leaf), w2) \<Rightarrow>
                     if result < 0 then ((result, phys_block), w2)
                     else case leaf_scan leaf block_num 0 of
                            Some i \<Rightarrow>
                              let extent_start = ee_start_lo leaf i
                                                 OR push_bit 32 (ee_start_hi leaf i)
                              in ((0, u64 (extent_start + (block_num - ee_block leaf i))),
                                  kfree_w h w2)
                          | None \<Rightarrow> ((- 1, phys_block), kfree_w h w2))"

definition ext4_read_file_block ::
    "ext4_fs \<Rightarrow> memory \<Rightarrow> nat \<Rightarrow> memory \<Rightarrow> world \<Rightarrow> ((int \<times> memory) \<times> world) option" where
  "ext4_read_file_block fs inode block_num buffer w =
    (let file_size = inode_file_size inode
     in if block_size fs = 0 then None
        else
          let max_block = u64 (file_size + block_size fs - 1) div block_size fs
          in if max_block \<le> block_num
             then Some ((0, memset buffer 0 0 (block_size fs)), w)
             else if s_feature_incompat (sb fs) AND EXT4_FEATURE_INCOMPAT_EXTENTS \<noteq> 0
             then case ext4_read_extent_block fs inode block_num 0 w of
                    ((result, phys_block), w1) \<Rightarrow>
                      if result < 0 then Some ((result, buffer), w1)
                      else Some (ext4_read_block fs phys_block buffer w1)
             else Some ((- 1, buffer), w))"




subsection \<open>Mounting\<close>


text \<open>
  The geometry that \<open>ext4_mount\<close> derives from the superblock. The shift
  \<open>1024 << s_log_block_size\<close> is undefined in C for counts of 22 and more; it is taken
  as the x86 \<open>shl\<close> on a 32-bit register computes it. The divisions are guarded where
  they are used.
\<close>

definition sb_block_size :: "ext4_superblock \<Rightarrow> nat" where
  "sb_block_size sblk = u32 (1024 * 2 ^ (s_log_block_size sblk mod 32))"

definition sb_block_count :: "ext4_superblock \<Rightarrow> nat" where
  "sb_block_count sblk = s_blocks_count_lo sblk OR push_bit 32 (s_blocks_count_hi sblk)"

definition sb_groups_count :: "ext4_superblock \<Rightarrow> nat" where
  "sb_groups_count sblk =
    u32 (u64 (sb_block_count sblk + s_blocks_per_group sblk - 1) div s_blocks_per_group sblk)"

definition sb_gdesc_blocks :: "ext4_superblock \<Rightarrow> nat" where
  "sb_gdesc_blocks sblk =
    (let gdesc_size = (if s_desc_size sblk = 0 then 32 else s_desc_size sblk);
         gdesc_table_size = u32 (sb_groups_count sblk * gdesc_size)
     in u32 (gdesc_table_size + sb_block_size sblk - 1) div sb_block_size sblk)"

definition mount_fs :: "block_device \<Rightarrow> nat \<Rightarrow> ext4_superblock \<Rightarrow> nat \<Rightarrow> memory \<Rightarrow> ext4_fs" where
  \<comment> \<open>the \<open>ext4_fs_t\<close> as \<open>ext4_mount\<close> fills it in\<close>
  "mount_fs dev hfs sblk hgdt gdt =
    \<lparr>device = dev, sb = sblk, block_size = sb_block_size sblk,
     block_count = sb_block_count sblk, groups_count = sb_groups_count sblk,
     inodes_per_group = s_inodes_per_group sblk, blocks_per_group = s_blocks_per_group sblk,
     group_desc_table = gdt, gdt_alloc = hgdt, fs_alloc = hfs\<rparr>"



subsection \<open>Directories\<close>

definition strlen :: "byte list \<Rightarrow> nat" where
  \<comment> \<open>a C string given as its bytes; a zero byte, if any, ends it\<close>
  "strlen cs = length (takeWhile (\<lambda>c. c \<noteq> 0) cs)"

definition cstr :: "byte list \<Rightarrow> memory" where
  \<comment> \<open>the string in memory, with its terminating NUL\<close>
  "cstr cs = (\<lambda>i. if i < strlen cs then cs ! i else 0)"

text \<open>lib/minstd.c \<open>strncmp\<close>: the loop, then the difference of the bytes it stopped at.\<close>

function strncmp_loop :: "memory \<Rightarrow> nat \<Rightarrow> memory \<Rightarrow> nat \<Rightarrow> nat \<Rightarrow> int" where
  "strncmp_loop s1 a s2 b n =
    (if 1 < n \<and> s1 a \<noteq> 0 \<and> s2 b \<noteq> 0 \<and> s1 a = s2 b
     then strncmp_loop s1 (a + 1) s2 (b + 1) (n - 1)
     else if 0 < n then int (unat (s1 a)) - int (unat (s2 b)) else 0)"
  by pat_completeness auto
termination
  by (relation "measure (\<lambda>(s1, a, s2, b, n). n)") auto

definition strncmp :: "memory \<Rightarrow> memory \<Rightarrow> nat \<Rightarrow> int" where
  "strncmp s1 s2 n = (if n = 0 then 0 else strncmp_loop s1 0 s2 0 n)"

definition entry_matches :: "memory \<Rightarrow> nat \<Rightarrow> byte list \<Rightarrow> bool" where
  \<comment> \<open>\<open>entry->name_len == strlen(name) && strncmp(entry->name, name, entry->name_len) == 0\<close>\<close>
  "entry_matches buf off name =
    (de_name_len buf off = strlen name
     \<and> strncmp (de_name buf off) (cstr name) (de_name_len buf off) = 0)"

text \<open>
  The \<open>while (offset < fs->block_size)\<close> loop of \<open>ext4_find_dir_entry\<close> over one block.
  \<open>offset\<close> is a \<open>uint32_t\<close>, so the loop need not end; \<open>None\<close> is the loop that
  does not. Otherwise the result is the inode number found in this block, if any.
\<close>

partial_function (option) find_in_block ::
    "memory \<Rightarrow> nat \<Rightarrow> byte list \<Rightarrow> nat \<Rightarrow> nat option option" where
  "find_in_block buf bsize name offset =
    (if offset < bsize then
       if de_rec_len buf offset = 0 then Some None
       else if de_inode buf offset \<noteq> 0 \<and> entry_matches buf offset name
       then Some (Some (de_inode buf offset))
       else find_in_block buf bsize name (u32 (offset + de_rec_len buf offset))
     else Some None)"

text \<open>The loop over the blocks of the directory, with \<open>n\<close> blocks left.\<close>

primrec find_dir_blocks ::
    "ext4_fs \<Rightarrow> memory \<Rightarrow> byte list \<Rightarrow> nat \<Rightarrow> nat \<Rightarrow> nat \<Rightarrow> memory \<Rightarrow> nat \<Rightarrow> world
      \<Rightarrow> ((int \<times> nat) \<times> world) option" where
  "find_dir_blocks fs dir_inode name h 0 block_idx dir_buffer ino w =
    Some ((- 1, ino), kfree_w h w)"
| "find_dir_blocks fs dir_inode name h (Suc n) block_idx dir_buffer ino w =
    (case ext4_read_file_block fs dir_inode block_idx dir_buffer w of
       None \<Rightarrow> None
     | Some ((result, buf), w1) \<Rightarrow>
         if result < 0 then Some ((result, ino), kfree_w h w1)
         else case find_in_block buf (block_size fs) name 0 of
                None \<Rightarrow> None
              | Some (Some found) \<Rightarrow> Some ((0, found), kfree_w h w1)
              | Some None \<Rightarrow>
                  find_dir_blocks fs dir_inode name h n (Suc block_idx) buf ino w1)"

definition ext4_find_dir_entry ::
    "ext4_fs \<Rightarrow> memory \<Rightarrow> byte list \<Rightarrow> nat \<Rightarrow> world \<Rightarrow> ((int \<times> nat) \<times> world) option" where
  \<comment> \<open>the status and \<open>*inode_num\<close>, which is written on success only\<close>
  "ext4_find_dir_entry fs dir_inode name ino w =
    (case kmalloc_w (block_size fs) w of
       (None, w1) \<Rightarrow> Some ((- 1, ino), w1)
     | (Some (h, dir_buffer), w1) \<Rightarrow>
         if block_size fs = 0 then None
         else
           let dir_size = inode_file_size dir_inode;
               num_blocks = u64 (dir_size + block_size fs - 1) div block_size fs
           in find_dir_blocks fs dir_inode name h num_blocks 0 dir_buffer ino w1)"

text \<open>
  \<open>ext4_readdir\<close>: the scan of one block threads the running index of valid entries;
  it ends with the offset of the entry wanted (\<open>Inl\<close>) or with the index reached.
\<close>

partial_function (option) readdir_in_block ::
    "memory \<Rightarrow> nat \<Rightarrow> nat \<Rightarrow> nat \<Rightarrow> nat \<Rightarrow> (nat + nat) option" where
  "readdir_in_block buf bsize index entry_idx offset =
    (if offset < bsize then
       if de_rec_len buf offset = 0 then Some (Inr entry_idx)
       else if de_inode buf offset \<noteq> 0 \<and> entry_idx = index then Some (Inl offset)
       else readdir_in_block buf bsize index
              (if de_inode buf offset \<noteq> 0 then u32 (entry_idx + 1) else entry_idx)
              (u32 (offset + de_rec_len buf offset))
     else Some (Inr entry_idx))"

definition dirent_type :: "nat \<Rightarrow> nat" where
  \<comment> \<open>the \<open>switch\<close> on \<open>entry->file_type\<close>\<close>
  "dirent_type ft =
    (if ft = 1 then VFS_FILE else if ft = 2 then VFS_DIRECTORY else if ft = 7 then VFS_SYMLINK
     else if ft = 3 then VFS_CHARDEVICE else if ft = 4 then VFS_BLOCKDEVICE
     else if ft = 5 then VFS_PIPE else if ft = 6 then VFS_SOCKET else VFS_FILE)"

definition fill_dirent :: "memory \<Rightarrow> nat \<Rightarrow> vfs_dirent \<Rightarrow> vfs_dirent" where
  \<comment> \<open>the copy of the entry at \<open>offset\<close> into \<open>*dirent\<close>\<close>
  "fill_dirent buf offset dirent =
    (let name_len = (if VFS_NAME_MAX < de_name_len buf offset then VFS_NAME_MAX
                     else de_name_len buf offset);
         name1 = (\<lambda>i. if i < name_len then de_name buf offset i else d_name dirent i);
         name2 = name1(name_len := 0)
     in \<lparr>d_name = name2, d_inode = de_inode buf offset,
         d_type = dirent_type (de_file_type buf offset)\<rparr>)"

primrec readdir_blocks ::
    "ext4_fs \<Rightarrow> memory \<Rightarrow> nat \<Rightarrow> nat \<Rightarrow> nat \<Rightarrow> nat \<Rightarrow> nat \<Rightarrow> memory \<Rightarrow> vfs_dirent \<Rightarrow> world
      \<Rightarrow> ((int \<times> vfs_dirent) \<times> world) option" where
  "readdir_blocks fs dir_inode index h 0 block_idx entry_idx dir_buffer dirent w =
    Some ((- 1, dirent), kfree_w h w)"
| "readdir_blocks fs dir_inode index h (Suc n) block_idx entry_idx dir_buffer dirent w =
    (case ext4_read_file_block fs dir_inode block_idx dir_buffer w of
       None \<Rightarrow> None
     | Some ((result, buf), w1) \<Rightarrow>
         if result < 0 then Some ((result, dirent), kfree_w h w1)
         else case readdir_in_block buf (block_size fs) index entry_idx 0 of
                None \<Rightarrow> None
              | Some (Inl offset) \<Rightarrow> Some ((0, fill_dirent buf offset dirent), kfree_w h w1)
              | Some (Inr entry_idx') \<Rightarrow>
                  readdir_blocks fs dir_inode index h n (Suc block_idx) entry_idx' buf dirent w1)"

definition ext4_readdir ::
    "vfs_node \<Rightarrow> nat \<Rightarrow> vfs_dirent \<Rightarrow> world \<Rightarrow> ((int \<times> vfs_dirent) \<times> world) option" where
  \<comment> \<open>for non-null \<open>node\<close> and \<open>dirent\<close>\<close>
  "ext4_readdir node index dirent w =
    (case private_data node of
       None \<Rightarrow> Some ((- 1, dirent), w)
     | Some (_, info) \<Rightarrow>
         if v_type node \<noteq> VFS_DIRECTORY then Some ((- 1, dirent), w)
         else
           let fs = info_fs info; dir_inode = raw_inode info
           in case kmalloc_w (block_size fs) w of
                (None, w1) \<Rightarrow> Some ((- 1, dirent), w1)
              | (Some (h, dir_buffer), w1) \<Rightarrow>
                  if block_size fs = 0 then None
                  else
                    let dir_size = inode_file_size dir_inode;
                        num_blocks = u64 (dir_size + block_size fs - 1) div block_size fs
                    in readdir_blocks fs dir_inode index h num_blocks 0 0 dir_buffer dirent w1)"

subsection \<open>A view of the outcome of mounting\<close>


subsection \<open>Extent resolution in the words of the specification\<close>












subsection \<open>Directory lookup in the words of the specification\<close>

text \<open>
  The offsets of the packed entries of a block: from 0, each entry \<open>rec_len\<close> bytes
  after the one before, up to the end of the block or an entry of length 0. Every entry
  advances by one byte at least, so \<open>bsize\<close> steps reach the end.
\<close>

primrec entry_offsets :: "nat \<Rightarrow> memory \<Rightarrow> nat \<Rightarrow> nat \<Rightarrow> nat list" where
  "entry_offsets 0 buf bsize off = []"
| "entry_offsets (Suc n) buf bsize off =
    (if off < bsize \<and> de_rec_len buf off \<noteq> 0
     then off # entry_offsets n buf bsize (off + de_rec_len buf off)
     else [])"

definition block_entries :: "memory \<Rightarrow> nat \<Rightarrow> nat list" where
  "block_entries buf bsize = entry_offsets bsize buf bsize 0"

definition entry_name :: "memory \<Rightarrow> nat \<Rightarrow> byte list" where
  "entry_name buf off = map (de_name buf off) [0..<de_name_len buf off]"

definition lookup_in_block :: "memory \<Rightarrow> nat \<Rightarrow> byte list \<Rightarrow> nat option" where
  \<comment> \<open>the inode of the first entry in use whose name is \<open>name\<close>\<close>
  "lookup_in_block buf bsize name =
    map_option (de_inode buf)
      (find (\<lambda>off. de_inode buf off \<noteq> 0 \<and> entry_name buf off = name) (block_entries buf bsize))"

text \<open>The walk over the blocks of the directory, \<open>n\<close> blocks left, by \<open>lookup_in_block\<close>.\<close>

primrec lookup_by_spec ::
    "ext4_fs \<Rightarrow> memory \<Rightarrow> byte list \<Rightarrow> nat \<Rightarrow> nat \<Rightarrow> memory \<Rightarrow> world
      \<Rightarrow> ((int + nat) \<times> world) option" where
  "lookup_by_spec fs dir_inode name 0 block_idx buf w = Some (Inl (- 1), w)"
| "lookup_by_spec fs dir_inode name (Suc n) block_idx buf w =
    (case ext4_read_file_block fs dir_inode block_idx buf w of
       None \<Rightarrow> None
     | Some ((r, blk), w1) \<Rightarrow>
         if r < 0 then Some (Inl r, w1)
         else case lookup_in_block blk (block_size fs) name of
                Some found \<Rightarrow> Some (Inr found, w1)
              | None \<Rightarrow> lookup_by_spec fs dir_inode name n (Suc block_idx) blk w1)"

subsection \<open>Device reads observed between two worlds\<close>



subsection \<open>Concrete devices and filesystems used to exercise the reader\<close>

definition zero_dev :: block_device where
  \<comment> \<open>a device of zero bytes whose reads succeed\<close>
  "zero_dev = \<lparr>dev_read = (\<lambda>off sz buf. (0, \<lambda>i. if i < sz then 0 else buf i))\<rparr>"

definition plain_world :: world where
  \<comment> \<open>nothing allocated, every allocation succeeds with a zeroed buffer\<close>
  "plain_world = \<lparr>live = [], next_alloc = 0, alloc_plan = (\<lambda>k. Some (\<lambda>_. 0)), dev_log = [],
                   stack_junk = (\<lambda>_. 0)\<rparr>"

definition demo_sb :: "nat \<Rightarrow> ext4_superblock" where
  \<comment> \<open>1 KiB blocks, one group, with the given incompatible-feature mask\<close>
  "demo_sb incompat =
    \<lparr>s_blocks_count_lo = 64, s_first_data_block = 1, s_log_block_size = 0,
     s_blocks_per_group = 8192, s_inodes_per_group = 16, s_magic = 0xEF53,
     s_inode_size = 128, s_feature_incompat = incompat, s_desc_size = 0,
     s_blocks_count_hi = 0\<rparr>"

definition demo_fs :: "block_device \<Rightarrow> nat \<Rightarrow> ext4_fs" where
  "demo_fs dev incompat =
    \<lparr>device = dev, sb = demo_sb incompat, block_size = 1024, block_count = 64,
     groups_count = 1, inodes_per_group = 16, blocks_per_group = 8192,
     group_desc_table = (\<lambda>_. 0), gdt_alloc = 1, fs_alloc = 0\<rparr>"





definition pattern_dev :: "memory \<Rightarrow> block_device" where
  \<comment> \<open>a device whose reads succeed and deliver \<open>pat\<close> at every offset\<close>
  "pattern_dev pat = \<lparr>dev_read = (\<lambda>off sz buf. (0, \<lambda>i. if i < sz then pat i else buf i))\<rparr>"





definition dir_inode_image :: memory where
  \<comment> \<open>a directory inode of size 1024 whose one extent maps block 0 to block 7\<close>
  "dir_inode_image =
    (\<lambda>i. if i = 0 then 0xED else if i = 1 then 0x41 else if i = 5 then 4
         else if i = 34 then 8 else if i = 40 then 0x0A else if i = 41 then 0xF3
         else if i = 42 then 1 else if i = 56 then 1 else if i = 60 then 7 else 0)"

definition dir_block :: memory where
  \<comment> \<open>the entries \<open>{2, "."}\<close>, \<open>{2, ".."}\<close>, \<open>{13, "foo.txt"}\<close> with record lengths 12, 12
      and 1000, filling a block of 1024 bytes\<close>
  "dir_block =
    (\<lambda>i. if i = 0 then 2 else if i = 4 then 12 else if i = 6 then 1 else if i = 7 then 2
         else if i = 8 then 0x2E
         else if i = 12 then 2 else if i = 16 then 12 else if i = 18 then 2
         else if i = 19 then 2 else if i = 20 then 0x2E else if i = 21 then 0x2E
         else if i = 24 then 13 else if i = 28 then 0xE8 else if i = 29 then 3
         else if i = 30 then 7 else if i = 31 then 1
         else if i = 32 then 0x66 else if i = 33 then 0x6F else if i = 34 then 0x6F
         else if i = 35 then 0x2E else if i = 36 then 0x74 else if i = 37 then 0x78
         else if i = 38 then 0x74 else 0)"

definition name_foo_txt :: "byte list" where
  "name_foo_txt = [0x66, 0x6F, 0x6F, 0x2E, 0x74, 0x78, 0x74]"

definition name_missing :: "byte list" where
  "name_missing = [0x6D, 0x69, 0x73, 0x73, 0x69, 0x6E, 0x67]"

definition dir_fs :: ext4_fs where
  "dir_fs = demo_fs (pattern_dev dir_block) 0x40"

definition dir_node :: vfs_node where
  "dir_node =
    \<lparr>v_type = VFS_DIRECTORY, v_size = 1024, v_inode = 2,
     private_data = Some (0, \<lparr>raw_inode = dir_inode_image, inode_num = 2, info_fs = dir_fs\<rparr>)\<rparr>"

section \<open>Allocator: memory and block-sequence lemmas\<close>


lemma wr_le_outside: "x < a \<or> a + n \<le> x \<Longrightarrow> wr_le n a v m x = m x"
  by (induction n arbitrary: a v m) auto

lemma rd_le_cong: "(\<And>x. a \<le> x \<Longrightarrow> x < a + n \<Longrightarrow> m' x = m x) \<Longrightarrow> rd_le n m' a = rd_le n m a"
  by (induction n arbitrary: a) auto

lemma rd_le_bound: "rd_le n m a < 256 ^ n"
proof (induction n arbitrary: a)
  case 0 show ?case by simp
next
  case (Suc n)
  have "unat (m a) < 256" using unsigned_less[of "m a"] by simp
  moreover have "rd_le n m (Suc a) < 256 ^ n" by (rule Suc.IH)
  ultimately show ?case by simp
qed

lemma rd_le_wr_le: "rd_le n (wr_le n a v m) a = v mod 256 ^ n"
proof (induction n arbitrary: a v m)
  case 0 show ?case by simp
next
  case (Suc n)
  have "wr_le n (Suc a) (v div 256) (m(a := of_nat v)) a = (of_nat v :: byte)"
    by (simp add: wr_le_outside)
  moreover have "unat (of_nat v :: byte) = v mod 256"
    by (simp add: unat_of_nat)
  ultimately show ?case
    by (simp add: Suc.IH mod_mult2_eq)
qed

lemma sub64_le: "b \<le> a \<Longrightarrow> a < 2 ^ 64 \<Longrightarrow> sub64 a b = a - b"
proof -
  assume ba: "b \<le> a" and a: "a < 2 ^ 64"
  then have "a + 2 ^ 64 - b mod 2 ^ 64 = (a - b) + 2 ^ 64" by simp
  then show ?thesis using a by (simp add: sub64_def)
qed

lemma set_hsize_frame: "x < h \<or> h + 8 \<le> x \<Longrightarrow> set_hsize h v m x = m x"
  using wr_le_outside[of x h 8 v m] by (auto simp: set_hsize_def)

lemma set_hmagic_frame: "x < h + 8 \<or> h + 12 \<le> x \<Longrightarrow> set_hmagic h v m x = m x"
  using wr_le_outside[of x "h + 8" 4 v m] by (auto simp: set_hmagic_def)

lemma set_hused_frame: "x \<noteq> h + 12 \<Longrightarrow> set_hused h b m x = m x"
  by (simp add: set_hused_def)

lemma hsize_cong: "(\<And>x. h \<le> x \<Longrightarrow> x < h + 8 \<Longrightarrow> m' x = m x) \<Longrightarrow> hsize m' h = hsize m h"
  unfolding hsize_def by (rule rd_le_cong) simp

lemma hmagic_cong: "(\<And>x. h + 8 \<le> x \<Longrightarrow> x < h + 12 \<Longrightarrow> m' x = m x) \<Longrightarrow> hmagic m' h = hmagic m h"
  unfolding hmagic_def by (rule rd_le_cong) simp

lemma hused_cong: "m' (h + 12) = m (h + 12) \<Longrightarrow> hused m' h = hused m h"
  by (simp add: hused_def)

lemma hsize_set_hsize: "hsize (set_hsize h v m) h = v mod 2 ^ 64"
  using rd_le_wr_le[of 8 h v m] by (simp add: hsize_def set_hsize_def)

lemma hmagic_set_hmagic: "hmagic (set_hmagic h v m) h = v mod 2 ^ 32"
  using rd_le_wr_le[of 4 "h + 8" v m] by (simp add: hmagic_def set_hmagic_def)

lemma hused_set_hused: "hused (set_hused h b m) h = b"
  by (simp add: hused_def set_hused_def)

lemma hsize_bound: "hsize m h < 2 ^ 64"
  using rd_le_bound[of 8 m h] by (simp add: hsize_def)

text \<open>A header is left alone by a store that stays outside its 16 bytes.\<close>

lemma header_cong:
  assumes "\<And>x. h \<le> x \<Longrightarrow> x < h + 16 \<Longrightarrow> m' x = m x"
  shows "hsize m' h = hsize m h" and "hmagic m' h = hmagic m h" and "hused m' h = hused m h"
  using assms by (auto intro!: hsize_cong hmagic_cong hused_cong)

lemma extent_simps [simp]: "extent [] = 0" "extent (b # bs) = fst b + extent bs"
  "extent (xs @ ys) = extent xs + extent ys"
  by (simp_all add: extent_def)

lemma blocks_at_append:
  "blocks_at m a (xs @ ys) = (blocks_at m a xs \<and> blocks_at m (a + extent xs) ys)"
  by (induction xs arbitrary: a) (auto simp: add.assoc)

lemma blocks_at_cong:
  "blocks_at m a bs \<Longrightarrow> (\<And>x. a \<le> x \<Longrightarrow> x < a + extent bs \<Longrightarrow> m' x = m x)
    \<Longrightarrow> blocks_at m' a bs"
proof (induction bs arbitrary: a)
  case Nil
  show ?case by simp
next
  case (Cons b bs)
  from Cons.prems(1) have sz: "16 \<le> fst b" by (simp add: sizeof_alloc_header_def)
  have hd: "\<And>x. a \<le> x \<Longrightarrow> x < a + 16 \<Longrightarrow> m' x = m x"
    using Cons.prems(2) sz by simp
  have tl: "blocks_at m' (a + fst b) bs"
    using Cons.prems by (intro Cons.IH) (auto simp: add.assoc)
  show ?case
    using Cons.prems(1) tl header_cong[of a m' m, OF hd] by simp
qed

lemma find_free_loop_blocks:
  "blocks_at m a bs \<Longrightarrow> a + extent bs = hend \<Longrightarrow> hend < 2 ^ 64
    \<Longrightarrow> find_free_loop m hend t a =
        Some ([], case first_fit t a bs of None \<Rightarrow> NULL | Some b \<Rightarrow> b)"
proof (induction bs arbitrary: a)
  case Nil
  then show ?case by (subst find_free_loop.simps) simp
next
  case (Cons b bs)
  from Cons.prems have sz: "16 \<le> fst b" and lt: "a < hend" and nxt: "a + fst b < 2 ^ 64"
    by (auto simp: sizeof_alloc_header_def)
  have step: "u64 (a + hsize m a) = a + fst b"
    using Cons.prems(1) nxt by (simp add: u64_def)
  show ?case
  proof (cases "\<not> snd b \<and> t \<le> fst b")
    case True
    then show ?thesis using Cons.prems(1) lt by (subst find_free_loop.simps) simp
  next
    case False
    have "find_free_loop m hend t (a + fst b) =
        Some ([], case first_fit t (a + fst b) bs of None \<Rightarrow> NULL | Some b \<Rightarrow> b)"
      using Cons.prems by (intro Cons.IH) (auto simp: add.assoc)
    then show ?thesis
      using False Cons.prems(1) lt step by (subst find_free_loop.simps) auto
  qed
qed


lemma hsize_set_hsize_other [simp]:
  "h' + 8 \<le> h \<or> h + 8 \<le> h' \<Longrightarrow> hsize (set_hsize h v m) h' = hsize m h'"
  by (rule hsize_cong, rule set_hsize_frame, arith)

lemma hmagic_set_hsize [simp]:
  "h \<le> h' \<or> h' + 12 \<le> h \<Longrightarrow> hmagic (set_hsize h v m) h' = hmagic m h'"
  by (rule hmagic_cong, rule set_hsize_frame, arith)

lemma hused_set_hsize [simp]:
  "h' + 12 < h \<or> h \<le> h' + 4 \<Longrightarrow> hused (set_hsize h v m) h' = hused m h'"
  by (rule hused_cong, rule set_hsize_frame, arith)

lemma hsize_set_hmagic [simp]:
  "h + 12 \<le> h' \<or> h' \<le> h \<Longrightarrow> hsize (set_hmagic h v m) h' = hsize m h'"
  by (rule hsize_cong, rule set_hmagic_frame, arith)

lemma hmagic_set_hmagic_other [simp]:
  "h + 4 \<le> h' \<or> h' + 4 \<le> h \<Longrightarrow> hmagic (set_hmagic h v m) h' = hmagic m h'"
  by (rule hmagic_cong, rule set_hmagic_frame, arith)

lemma hused_set_hmagic [simp]:
  "h' + 4 < h \<or> h \<le> h' \<Longrightarrow> hused (set_hmagic h v m) h' = hused m h'"
  by (rule hused_cong, rule set_hmagic_frame, arith)

lemma hsize_set_hused [simp]:
  "h + 12 < h' \<or> h' \<le> h + 4 \<Longrightarrow> hsize (set_hused h b m) h' = hsize m h'"
  by (rule hsize_cong, rule set_hused_frame, arith)

lemma hmagic_set_hused [simp]:
  "h + 4 < h' \<or> h' \<le> h \<Longrightarrow> hmagic (set_hused h b m) h' = hmagic m h'"
  by (rule hmagic_cong, rule set_hused_frame, arith)

lemma hused_set_hused_other [simp]:
  "h \<noteq> h' \<Longrightarrow> hused (set_hused h b m) h' = hused m h'"
  by (rule hused_cong, rule set_hused_frame, arith)

lemmas header_same [simp] = hsize_set_hsize hmagic_set_hmagic hused_set_hused

lemma extent_alloc_in: "extent (alloc_in t bs) = extent bs"
  by (induction bs) (auto simp: MIN_ALLOC_SIZE_def)

lemma first_fit_range:
  "first_fit t a bs = Some f \<Longrightarrow> blocks_at m a bs
    \<Longrightarrow> a \<le> f \<and> f + hsize m f \<le> a + extent bs \<and> t \<le> hsize m f \<and> \<not> hused m f
          \<and> 16 \<le> hsize m f"
  by (induction bs arbitrary: a) (fastforce simp: sizeof_alloc_header_def split: if_splits)+

lemma split_block_frame:
  "x < b \<or> b + 16 \<le> x \<Longrightarrow> x < u64 (b + t) \<or> u64 (b + t) + 16 \<le> x
    \<Longrightarrow> split_block b t m x = m x"
  by (auto simp: split_block_def Let_def set_hused_frame set_hsize_frame set_hmagic_frame)

lemma split_block_blocks:
  "blocks_at m a bs \<Longrightarrow> first_fit t a bs = Some f \<Longrightarrow> 16 \<le> t \<or> hsize m f < t + 32
    \<Longrightarrow> a + extent bs < 2 ^ 64
    \<Longrightarrow> t + 32 < 2 ^ 64 \<Longrightarrow> blocks_at (split_block f t m) a (alloc_in t bs)"
proof (induction bs arbitrary: a)
  case Nil
  then show ?case by simp
next
  case (Cons b bs)
  from Cons.prems(1) have hd: "hmagic m a = ALLOC_MAGIC" "hsize m a = fst b" "hused m a = snd b"
    "16 \<le> fst b" and tl: "blocks_at m (a + fst b) bs"
    by (simp_all add: sizeof_alloc_header_def)
  show ?case
  proof (cases "\<not> snd b \<and> t \<le> fst b")
    case True
    then have f: "f = a" using Cons.prems(2) by simp
    have rest: "blocks_at (split_block a t m) (a + fst b) bs"
    proof (rule blocks_at_cong[OF tl])
      fix x assume "a + fst b \<le> x"
      then show "split_block a t m x = m x"
        using hd True Cons.prems
        by (auto simp: split_block_def Let_def set_hused_frame set_hsize_frame
            set_hmagic_frame u64_def MIN_ALLOC_SIZE_def sizeof_alloc_header_def)
    qed
    show ?thesis
    proof (cases "t + MIN_ALLOC_SIZE \<le> fst b")
      case split: True
      have nb: "u64 (a + t) = a + t" using Cons.prems True by (simp add: u64_def)
      have "blocks_at (split_block a t m) a ((t, True) # (fst b - t, False) # bs)"
        using hd True split Cons.prems rest nb
        by (simp add: split_block_def Let_def u64_def sub64_le MIN_ALLOC_SIZE_def
            sizeof_alloc_header_def ALLOC_MAGIC_def)
      then show ?thesis using True split f by simp
    next
      case nosplit: False
      have "blocks_at (split_block a t m) a ((fst b, True) # bs)"
        using hd True nosplit Cons.prems rest
        by (simp add: split_block_def Let_def u64_def MIN_ALLOC_SIZE_def
            sizeof_alloc_header_def)
      then show ?thesis using True nosplit f by simp
    qed
  next
    case False
    then have ff: "first_fit t (a + fst b) bs = Some f" using Cons.prems(2) by auto
    have rng: "a + fst b \<le> f" "f + hsize m f \<le> a + fst b + extent bs" "t \<le> hsize m f"
      using first_fit_range[OF ff tl] by simp_all
    have IH: "blocks_at (split_block f t m) (a + fst b) (alloc_in t bs)"
      using Cons.prems ff tl by (intro Cons.IH) (auto simp: add.assoc)
    have "split_block f t m x = m x" if "a \<le> x" "x < a + 16" for x
    proof (rule split_block_frame)
      show "x < f \<or> f + 16 \<le> x" using rng hd that by simp
      have "f + t < 2 ^ 64" using rng Cons.prems by simp
      then have "u64 (f + t) = f + t" by (simp add: u64_def)
      then show "x < u64 (f + t) \<or> u64 (f + t) + 16 \<le> x"
        using rng hd that by simp
    qed
    note same = header_cong[of a "split_block f t m" m, OF this]
    have "alloc_in t (b # bs) = b # alloc_in t bs" using False by auto
    then show ?thesis using hd IH same by (simp add: sizeof_alloc_header_def)
  qed
qed

subsection \<open>The allocator on a well-formed arena\<close>


lemma kmalloc_init_layout:
  assumes "0 < kernel_heap s" "heap_end s < 2 ^ 64" "\<not> heap_initialized s"
  shows "heap_layout (snd (kmalloc_init s)) [(KERNEL_HEAP_SIZE, False)]"
  using assms
  by (simp add: heap_layout_def kmalloc_init_def Let_def heap_end_def
      KERNEL_HEAP_SIZE_def ALLOC_MAGIC_def sizeof_alloc_header_def)

lemma align16_bounds:
  assumes "0 < n" "n + 32 \<le> 2 ^ 64"
  shows "n \<le> align16 n" "align16 n < n + 16" "align16 n mod 16 = 0" "16 \<le> align16 n"
proof -
  have u: "u64 (n + 15) = n + 15" using assms by (simp add: u64_def)
  have le: "(n + 15) mod 16 \<le> 15" by simp
  show 1: "n \<le> align16 n" unfolding align16_def u using le by linarith
  show 2: "align16 n < n + 16" unfolding align16_def u by simp
  have "n + 15 - (n + 15) mod 16 = 16 * ((n + 15) div 16)"
    by (simp add: minus_mod_eq_mult_div)
  then show 3: "align16 n mod 16 = 0" unfolding align16_def u by simp
  then have "16 dvd align16 n" by (simp add: mod_eq_0_iff_dvd)
  then show "16 \<le> align16 n" using 1 assms(1) by (auto simp: dvd_def)
qed

lemma kmalloc_layout_none:
  assumes "heap_layout s bs" "0 < n"
    and "first_fit (u64 (align16 n + sizeof_alloc_header)) (kernel_heap s) bs = None"
  shows "kmalloc n s = Some (NULL, s\<lparr>klog := klog s @ [MM_OutOfMemory (align16 n)]\<rparr>)"
proof -
  have "find_free_block (u64 (align16 n + sizeof_alloc_header)) s = Some ([], NULL)"
    using assms find_free_loop_blocks[of "mem s" "kernel_heap s" bs "heap_end s"]
    by (simp add: find_free_block_def heap_layout_def heap_end_def)
  then show ?thesis using assms by (simp add: kmalloc_def Let_def heap_layout_def)
qed

lemma kmalloc_layout_some:
  assumes "heap_layout s bs" "0 < n"
    and "first_fit (u64 (align16 n + sizeof_alloc_header)) (kernel_heap s) bs = Some b"
  shows "kmalloc n s = Some (b + sizeof_alloc_header,
           s\<lparr>mem := split_block b (u64 (align16 n + sizeof_alloc_header)) (mem s),
             heap_used := u64 (heap_used s
               + hsize (split_block b (u64 (align16 n + sizeof_alloc_header)) (mem s)) b)\<rparr>)"
proof -
  let ?t = "u64 (align16 n + sizeof_alloc_header)"
  have ff: "find_free_block ?t s = Some ([], b)"
    using assms find_free_loop_blocks[of "mem s" "kernel_heap s" bs "heap_end s"]
    by (simp add: find_free_block_def heap_layout_def heap_end_def)
  have rng: "kernel_heap s \<le> b" "b + hsize (mem s) b \<le> heap_end s" "16 \<le> hsize (mem s) b"
    using first_fit_range[OF assms(3), of "mem s"] assms(1)
    by (simp_all add: heap_layout_def heap_end_def)
  have "b \<noteq> NULL" using rng assms(1) by (simp add: heap_layout_def NULL_def)
  moreover have "u64 (b + sizeof_alloc_header) = b + sizeof_alloc_header"
    using rng assms(1) by (simp add: heap_layout_def u64_def sizeof_alloc_header_def)
  ultimately show ?thesis using assms ff by (simp add: kmalloc_def Let_def heap_layout_def)
qed


lemma kmalloc_layout_after:
  assumes "heap_layout s bs" "0 < n" "n + 32 \<le> 2 ^ 64"
    and "kmalloc n s = Some (p, s')"
  shows "heap_layout s' (if p = NULL then bs else alloc_in (align16 n + 16) bs)"
proof -
  let ?t = "u64 (align16 n + sizeof_alloc_header)"
  have t: "?t = align16 n + 16" "16 \<le> align16 n + 16"
    using align16_bounds[OF assms(2,3)] assms(3)
    by (simp_all add: u64_def sizeof_alloc_header_def)
  show ?thesis
  proof (cases "first_fit ?t (kernel_heap s) bs")
    case None
    from kmalloc_layout_none[OF assms(1,2) None] assms(4,1)
    show ?thesis by (auto simp: heap_layout_def heap_end_def)
  next
    case (Some b)
    have rng: "kernel_heap s \<le> b" "b + hsize (mem s) b \<le> heap_end s"
        "?t \<le> hsize (mem s) b"
      using first_fit_range[OF Some, of "mem s"] assms(1)
      by (simp_all add: heap_layout_def heap_end_def)
    then have "align16 n + 16 \<le> KERNEL_HEAP_SIZE" using t by (simp add: heap_end_def)
    then have t32: "align16 n + 16 + 32 < 2 ^ 64" by (simp add: KERNEL_HEAP_SIZE_def)
    from rng have nn: "b + sizeof_alloc_header \<noteq> NULL"
      by (simp add: NULL_def sizeof_alloc_header_def)
    have "blocks_at (split_block b (align16 n + 16) (mem s)) (kernel_heap s)
        (alloc_in (align16 n + 16) bs)"
      using assms(1) Some t t32
      by (intro split_block_blocks) (simp_all add: heap_layout_def heap_end_def)
    with kmalloc_layout_some[OF assms(1,2) Some] assms(4,1) nn t
    show ?thesis by (auto simp: heap_layout_def heap_end_def extent_alloc_in)
  qed
qed

text \<open>Freeing the block at \<open>h\<close>: the three cases of \<open>kfree\<close> on a well-formed arena.\<close>

lemma layout_block:
  assumes "heap_layout s (pre @ (sz, u) # post)" and "h = kernel_heap s + extent pre"
  shows "kernel_heap s \<le> h" "h + sz \<le> heap_end s" "h + sz + extent post = heap_end s"
    "hmagic (mem s) h = ALLOC_MAGIC" "hsize (mem s) h = sz" "hused (mem s) h = u" "16 \<le> sz"
    "sub64 (h + sizeof_alloc_header) sizeof_alloc_header = h" "h + 16 \<noteq> NULL"
    "validate_block s h" "blocks_at (mem s) (kernel_heap s) pre"
    "blocks_at (mem s) (h + sz) post"
proof -
  from assms have b: "blocks_at (mem s) (kernel_heap s) pre" "blocks_at (mem s) h ((sz, u) # post)"
    and e: "extent pre + sz + extent post = KERNEL_HEAP_SIZE" and lim: "heap_end s < 2 ^ 64"
    by (simp_all add: heap_layout_def blocks_at_append add.assoc)
  show "kernel_heap s \<le> h" using assms(2) by simp
  show 1: "h + sz \<le> heap_end s" using assms(2) e by (simp add: heap_end_def)
  show "h + sz + extent post = heap_end s" using assms(2) e by (simp add: heap_end_def)
  show 2: "hmagic (mem s) h = ALLOC_MAGIC" "hsize (mem s) h = sz" "hused (mem s) h = u"
    and 3: "16 \<le> sz"
    using b(2) by (simp_all add: sizeof_alloc_header_def)
  show "blocks_at (mem s) (kernel_heap s) pre" by (rule b(1))
  show "blocks_at (mem s) (h + sz) post" using b(2) by simp
  show "sub64 (h + sizeof_alloc_header) sizeof_alloc_header = h"
    using 1 3 lim by (simp add: sub64_le sizeof_alloc_header_def)
  show "h + 16 \<noteq> NULL" by (simp add: NULL_def)
  show "validate_block s h"
    using 1 2 3 lim assms(2) by (simp add: validate_block_def u64_def sizeof_alloc_header_def)
qed

lemma kfree_double:
  assumes "heap_layout s (pre @ (sz, False) # post)" and "h = kernel_heap s + extent pre"
  shows "kfree (h + sizeof_alloc_header) s
          = s\<lparr>klog := klog s @ [MM_DoubleFree (h + sizeof_alloc_header)]\<rparr>"
  using layout_block[OF assms] assms(1)
  by (simp add: kfree_def Let_def heap_layout_def sizeof_alloc_header_def)


lemma kfree_no_merge:
  assumes "heap_layout s (pre @ (sz, True) # post)" and "h = kernel_heap s + extent pre"
    and "post = [] \<or> snd (hd post)"
  shows "kfree (h + sizeof_alloc_header) s
          = s\<lparr>mem := set_hused h False (mem s), heap_used := sub64 (heap_used s) sz\<rparr>"
    and "heap_layout (kfree (h + sizeof_alloc_header) s) (pre @ (sz, False) # post)"
proof -
  note lb = layout_block[OF assms(1,2)]
  let ?m = "set_hused h False (mem s)"
  let ?s2 = "s\<lparr>mem := ?m, heap_used := sub64 (heap_used s) sz\<rparr>"
  have lim: "heap_end s < 2 ^ 64" "heap_initialized s" "0 < kernel_heap s"
    using assms(1) by (simp_all add: heap_layout_def)
  have nxt: "u64 (h + sz) = h + sz" using lb(2) lim by (simp add: u64_def)
  have mb: "merge_blocks h ?s2 = ?s2"
  proof (cases post)
    case Nil
    then have "h + sz = heap_end s" using lb(3) by simp
    then show ?thesis using lb nxt by (simp add: merge_blocks_def Let_def heap_end_def)
  next
    case (Cons c cs)
    then have u: "snd c" using assms(3) by simp
    have "hused (mem s) (h + sz)" using lb(12) Cons u by simp
    then have "hused ?m (h + sz)" using lb(7) by simp
    then show ?thesis using lb nxt by (simp add: merge_blocks_def Let_def heap_end_def)
  qed
  show eq: "kfree (h + sizeof_alloc_header) s = ?s2"
    using lb lim mb by (simp add: kfree_def Let_def NULL_def sizeof_alloc_header_def)
  have pre: "blocks_at ?m (kernel_heap s) pre"
    by (rule blocks_at_cong[OF lb(11)]) (simp add: set_hused_frame assms(2))
  have post: "blocks_at ?m (h + sz) post"
    by (rule blocks_at_cong[OF lb(12)]) (use lb(7) in \<open>simp add: set_hused_frame\<close>)
  have "blocks_at ?m (kernel_heap s) (pre @ (sz, False) # post)"
    using pre post lb assms(2) by (simp add: blocks_at_append sizeof_alloc_header_def)
  then show "heap_layout (kfree (h + sizeof_alloc_header) s) (pre @ (sz, False) # post)"
    using assms(1) unfolding eq by (simp add: heap_layout_def heap_end_def)
qed

lemma kfree_merge:
  assumes "heap_layout s (pre @ (sz, True) # (nsz, False) # post)"
    and "h = kernel_heap s + extent pre"
  shows "kfree (h + sizeof_alloc_header) s
          = s\<lparr>mem := set_hmagic (h + sz) 0 (set_hsize h (sz + nsz) (set_hused h False (mem s))),
               heap_used := sub64 (heap_used s) sz\<rparr>"
    and "heap_layout (kfree (h + sizeof_alloc_header) s) (pre @ (sz + nsz, False) # post)"
    and "hmagic (mem (kfree (h + sizeof_alloc_header) s)) (h + sz) = 0"
proof -
  note lb = layout_block[OF assms(1,2)]
  let ?m1 = "set_hused h False (mem s)"
  let ?m = "set_hmagic (h + sz) 0 (set_hsize h (sz + nsz) ?m1)"
  let ?s2 = "s\<lparr>mem := ?m1, heap_used := sub64 (heap_used s) sz\<rparr>"
  have lim: "heap_end s < 2 ^ 64" "heap_initialized s" "0 < kernel_heap s"
    using assms(1) by (simp_all add: heap_layout_def)
  have nb: "hmagic (mem s) (h + sz) = ALLOC_MAGIC" "hsize (mem s) (h + sz) = nsz"
    "\<not> hused (mem s) (h + sz)" "16 \<le> nsz" "blocks_at (mem s) (h + sz + nsz) post"
    using lb(12) by (simp_all add: sizeof_alloc_header_def)
  have e: "h + sz + nsz + extent post = heap_end s" using lb(3) by simp
  have nxt: "u64 (h + sz) = h + sz" "u64 (h + sz + nsz) = h + sz + nsz" "u64 (sz + nsz) = sz + nsz"
    using e lim by (simp_all add: u64_def)
  have v: "validate_block ?s2 (h + sz)"
    using nb lb(1,7) e nxt lim
    by (simp add: validate_block_def heap_end_def sizeof_alloc_header_def)
  have mb: "merge_blocks h ?s2 = ?s2\<lparr>mem := ?m\<rparr>"
    using v nb lb nxt e by (simp add: merge_blocks_def Let_def heap_end_def)
  show eq: "kfree (h + sizeof_alloc_header) s = s\<lparr>mem := ?m, heap_used := sub64 (heap_used s) sz\<rparr>"
    using lb lim mb by (simp add: kfree_def Let_def NULL_def sizeof_alloc_header_def)
  have fr: "?m x = mem s x" if "x < h \<or> h + 16 \<le> x" "x < h + sz \<or> h + sz + 16 \<le> x" for x
    using that by (auto simp: set_hused_frame set_hsize_frame set_hmagic_frame)
  have pre: "blocks_at ?m (kernel_heap s) pre"
    by (rule blocks_at_cong[OF lb(11)]) (rule fr, simp_all add: assms(2))
  have post: "blocks_at ?m (h + sz + nsz) post"
    by (rule blocks_at_cong[OF nb(5)]) (rule fr, use lb(7) nb(4) in simp_all)
  have "sz + nsz < 2 ^ 64" using e lim by simp
  then have "blocks_at ?m (kernel_heap s) (pre @ (sz + nsz, False) # post)"
    using pre post lb nb assms(2)
    by (simp add: blocks_at_append sizeof_alloc_header_def add.assoc)
  then show "heap_layout (kfree (h + sizeof_alloc_header) s) (pre @ (sz + nsz, False) # post)"
    using assms(1) unfolding eq by (simp add: heap_layout_def heap_end_def add.assoc)
  show "hmagic (mem (kfree (h + sizeof_alloc_header) s)) (h + sz) = 0"
    unfolding eq by simp
qed


lemma kfree_layout:
  assumes "heap_layout s (pre @ (sz, True) # post)" and "h = kernel_heap s + extent pre"
  shows "heap_layout (kfree (h + sizeof_alloc_header) s) (pre @ coalesce sz post)"
    and "klog (kfree (h + sizeof_alloc_header) s) = klog s"
    and "heap_used (kfree (h + sizeof_alloc_header) s) = sub64 (heap_used s) sz"
    and "kernel_heap (kfree (h + sizeof_alloc_header) s) = kernel_heap s"
proof -
  have "post = [] \<or> snd (hd post) \<or> (\<exists>nsz cs. post = (nsz, False) # cs)"
    by (cases post) auto
  then consider (a) "post = [] \<or> snd (hd post)" | (b) nsz cs where "post = (nsz, False) # cs"
    by blast
  then have "heap_layout (kfree (h + sizeof_alloc_header) s) (pre @ coalesce sz post)
      \<and> klog (kfree (h + sizeof_alloc_header) s) = klog s
      \<and> heap_used (kfree (h + sizeof_alloc_header) s) = sub64 (heap_used s) sz
      \<and> kernel_heap (kfree (h + sizeof_alloc_header) s) = kernel_heap s"
  proof cases
    case a
    have "coalesce sz post = (sz, False) # post"
      using a by (cases post) (auto simp: coalesce_def)
    with kfree_no_merge[OF assms a] show ?thesis by simp
  next
    case b
    have "coalesce sz post = (sz + nsz, False) # cs"
      using b by (simp add: coalesce_def)
    with kfree_merge[OF assms(1)[unfolded b] assms(2)] show ?thesis by simp
  qed
  then show "heap_layout (kfree (h + sizeof_alloc_header) s) (pre @ coalesce sz post)"
    and "klog (kfree (h + sizeof_alloc_header) s) = klog s"
    and "heap_used (kfree (h + sizeof_alloc_header) s) = sub64 (heap_used s) sz"
    and "kernel_heap (kfree (h + sizeof_alloc_header) s) = kernel_heap s"
    by simp_all
qed

lemma coalesce_head: "\<exists>sz' post'. coalesce sz post = (sz', False) # post'"
  by (cases post) (auto simp: coalesce_def)

text \<open>The block handed out by the first-fit search, in the new block sequence.\<close>

lemma alloc_in_found:
  "first_fit t a bs = Some f \<Longrightarrow>
    \<exists>pre sz post. alloc_in t bs = pre @ (sz, True) # post \<and> f = a + extent pre"
proof (induction bs arbitrary: a)
  case Nil
  then show ?case by simp
next
  case (Cons b bs)
  show ?case
  proof (cases "\<not> snd b \<and> t \<le> fst b")
    case True
    then have "f = a" using Cons.prems by simp
    moreover have "\<exists>sz post. alloc_in t (b # bs) = [] @ (sz, True) # post"
      using True by auto
    ultimately show ?thesis by (metis add.right_neutral extent_simps(1))
  next
    case False
    then have "first_fit t (a + fst b) bs = Some f" using Cons.prems by auto
    from Cons.IH[OF this] obtain pre sz post where
      "alloc_in t bs = pre @ (sz, True) # post" "f = a + fst b + extent pre" by blast
    moreover have "alloc_in t (b # bs) = b # alloc_in t bs" using False by auto
    ultimately have "alloc_in t (b # bs) = (b # pre) @ (sz, True) # post \<and> f = a + extent (b # pre)"
      by (simp add: add.assoc)
    then show ?thesis by blast
  qed
qed

lemma split_block_zero: "32 \<le> hsize m b \<Longrightarrow> hsize (split_block b 0 m) b = 0"
  by (simp add: split_block_def Let_def u64_def MIN_ALLOC_SIZE_def sizeof_alloc_header_def)

lemma kmalloc_uninit:
  "0 < n \<Longrightarrow> \<not> heap_initialized s \<Longrightarrow> kmalloc n s = kmalloc n (snd (kmalloc_init s))"
  by (simp add: kmalloc_def kmalloc_init_def Let_def)

lemma heap_ok_init:
  assumes "heap_ok s"
  shows "\<exists>bs. heap_layout (if heap_initialized s then s else snd (kmalloc_init s)) bs"
  using assms kmalloc_init_layout[of s] by (auto simp: heap_ok_def)

lemma kmalloc_unfold_init:
  "0 < n \<Longrightarrow> kmalloc n s = kmalloc n (if heap_initialized s then s else snd (kmalloc_init s))"
  using kmalloc_uninit[of n s] by simp

lemma total_mult16: "u64 (align16 n + sizeof_alloc_header) mod 16 = 0"
proof -
  have "(u64 (n + 15) - u64 (n + 15) mod 16) = 16 * (u64 (n + 15) div 16)"
    by (simp add: minus_mod_eq_mult_div)
  then have "16 dvd align16 n + 16" by (simp add: align16_def)
  moreover have "(16::nat) dvd 2 ^ 64" by simp
  ultimately have "16 dvd (align16 n + 16) mod 2 ^ 64" by (simp add: dvd_mod)
  then show ?thesis by (simp add: u64_def sizeof_alloc_header_def mod_eq_0_iff_dvd)
qed


lemma kmalloc_on_layout:
  assumes "heap_layout s bs" "0 < n" "n + 32 \<le> 2 ^ 64"
    and "first_fit (align16 n + 16) (kernel_heap s) bs = Some b"
  shows "\<exists>s'. kmalloc n s = Some (b + 16, s') \<and> heap_layout s' (alloc_in (align16 n + 16) bs)
      \<and> kernel_heap s' = kernel_heap s \<and> klog s' = klog s"
proof -
  have t: "u64 (align16 n + sizeof_alloc_header) = align16 n + 16"
    using align16_bounds[OF assms(2,3)] assms(3) by (simp add: u64_def sizeof_alloc_header_def)
  note some = kmalloc_layout_some[OF assms(1,2), unfolded t, OF assms(4)]
  have "b + 16 \<noteq> NULL" by (simp add: NULL_def)
  with kmalloc_layout_after[OF assms(1,2,3) some] some show ?thesis
    by (simp add: sizeof_alloc_header_def)
qed

lemma fresh_heap_ok: "heap_ok fresh_heap"
  by (simp add: heap_ok_def fresh_heap_def heap_end_def KERNEL_HEAP_SIZE_def)

lemma heap_a_facts:
  "kmalloc 16 fresh_heap = Some (0x100010, heap_a)"
  "heap_layout heap_a [(32, True), (4194272, False)]"
  "kernel_heap heap_a = 0x100000" "klog heap_a = [MM_Initializing, MM_Initialized]"
proof -
  let ?s = "snd (kmalloc_init fresh_heap)"
  have l0: "heap_layout ?s [(KERNEL_HEAP_SIZE, False)]"
    by (rule kmalloc_init_layout)
      (simp_all add: fresh_heap_def heap_end_def KERNEL_HEAP_SIZE_def)
  have a: "align16 16 = 16" by (simp add: align16_def u64_def)
  have kh: "kernel_heap ?s = 0x100000" "klog ?s = [MM_Initializing, MM_Initialized]"
    by (simp_all add: kmalloc_init_def fresh_heap_def Let_def)
  have "first_fit (align16 16 + 16) (kernel_heap ?s) [(KERNEL_HEAP_SIZE, False)] = Some 0x100000"
    by (simp add: a kh KERNEL_HEAP_SIZE_def)
  from kmalloc_on_layout[OF l0 _ _ this]
  obtain s' where s': "kmalloc 16 ?s = Some (0x100000 + 16, s')"
    "heap_layout s' (alloc_in (align16 16 + 16) [(KERNEL_HEAP_SIZE, False)])"
    "kernel_heap s' = kernel_heap ?s" "klog s' = klog ?s"
    by auto
  have "kmalloc 16 fresh_heap = kmalloc 16 ?s"
    by (rule kmalloc_uninit) (simp_all add: fresh_heap_def)
  with s'(1) have k: "kmalloc 16 fresh_heap = Some (0x100010, s')" by simp
  then have "heap_a = s'" by (simp add: heap_a_def)
  with k s' kh show "kmalloc 16 fresh_heap = Some (0x100010, heap_a)"
    "heap_layout heap_a [(32, True), (4194272, False)]"
    "kernel_heap heap_a = 0x100000" "klog heap_a = [MM_Initializing, MM_Initialized]"
    by (simp_all add: a KERNEL_HEAP_SIZE_def MIN_ALLOC_SIZE_def sizeof_alloc_header_def)
qed

lemma heap_ab_facts:
  "kmalloc 16 heap_a = Some (0x100030, heap_ab)"
  "heap_layout heap_ab [(32, True), (32, True), (4194240, False)]"
  "kernel_heap heap_ab = 0x100000"
proof -
  have a: "align16 16 = 16" by (simp add: align16_def u64_def)
  have "first_fit (align16 16 + 16) (kernel_heap heap_a) [(32, True), (4194272, False)]
      = Some 0x100020"
    by (simp add: a heap_a_facts)
  from kmalloc_on_layout[OF heap_a_facts(2) _ _ this]
  obtain s' where s': "kmalloc 16 heap_a = Some (0x100020 + 16, s')"
    "heap_layout s' (alloc_in (align16 16 + 16) [(32, True), (4194272, False)])"
    "kernel_heap s' = kernel_heap heap_a"
    by auto
  then have "heap_ab = s'" by (simp add: heap_ab_def)
  with s' show "kmalloc 16 heap_a = Some (0x100030, heap_ab)"
    "heap_layout heap_ab [(32, True), (32, True), (4194240, False)]"
    "kernel_heap heap_ab = 0x100000"
    by (simp_all add: a heap_a_facts MIN_ALLOC_SIZE_def sizeof_alloc_header_def)
qed

lemma heap_abc_facts:
  "kmalloc 16 heap_ab = Some (0x100050, heap_abc)"
  "heap_layout heap_abc [(32, True), (32, True), (32, True), (4194208, False)]"
  "kernel_heap heap_abc = 0x100000"
proof -
  have a: "align16 16 = 16" by (simp add: align16_def u64_def)
  have "first_fit (align16 16 + 16) (kernel_heap heap_ab) [(32, True), (32, True), (4194240, False)]
      = Some 0x100040"
    by (simp add: a heap_ab_facts)
  from kmalloc_on_layout[OF heap_ab_facts(2) _ _ this]
  obtain s' where s': "kmalloc 16 heap_ab = Some (0x100040 + 16, s')"
    "heap_layout s' (alloc_in (align16 16 + 16) [(32, True), (32, True), (4194240, False)])"
    "kernel_heap s' = kernel_heap heap_ab"
    by auto
  then have "heap_abc = s'" by (simp add: heap_abc_def)
  with s' show "kmalloc 16 heap_ab = Some (0x100050, heap_abc)"
    "heap_layout heap_abc [(32, True), (32, True), (32, True), (4194208, False)]"
    "kernel_heap heap_abc = 0x100000"
    by (simp_all add: a heap_ab_facts MIN_ALLOC_SIZE_def sizeof_alloc_header_def)
qed


lemma first_fit_None: "(first_fit t a bs = None) = (\<forall>b\<in>set bs. snd b \<or> fst b < t)"
  by (induction bs arbitrary: a) auto

lemma first_fit_append_used:
  "first_fit t a (pre @ (sz, True) # post) =
    (case first_fit t a pre of Some f \<Rightarrow> Some f
     | None \<Rightarrow> first_fit t (a + extent pre + sz) post)"
  by (induction pre arbitrary: a) (auto simp: add.assoc split: option.splits)

lemma alloc_in_append_used:
  "alloc_in t (pre @ (sz, True) # post) =
    (if first_fit t a pre = None then pre @ (sz, True) # alloc_in t post
     else alloc_in t pre @ (sz, True) # post)"
proof (induction pre arbitrary: a)
  case Nil
  show ?case by simp
next
  case (Cons b pre)
  show ?case using Cons.IH[of "a + fst b"] by auto
qed

lemma alloc_in_found_size:
  "first_fit t a bs = Some f \<Longrightarrow> blocks_at m a bs \<Longrightarrow>
    \<exists>pre sz post. alloc_in t bs = pre @ (sz, True) # post \<and> f = a + extent pre
      \<and> (sz = t \<or> sz = hsize m f) \<and> t \<le> sz \<and> sz \<le> hsize m f"
proof (induction bs arbitrary: a)
  case Nil
  then show ?case by simp
next
  case (Cons b bs)
  show ?case
  proof (cases "\<not> snd b \<and> t \<le> fst b")
    case True
    then have f: "f = a" using Cons.prems by simp
    have hs: "hsize m a = fst b" using Cons.prems(2) by simp
    obtain sz post where "alloc_in t (b # bs) = [] @ (sz, True) # post"
      "(sz = t \<or> sz = fst b) \<and> t \<le> sz \<and> sz \<le> fst b"
      using True by (cases "t + MIN_ALLOC_SIZE \<le> fst b") auto
    then show ?thesis using f hs by (metis add.right_neutral extent_simps(1))
  next
    case False
    then have "first_fit t (a + fst b) bs = Some f" using Cons.prems by auto
    moreover have "blocks_at m (a + fst b) bs" using Cons.prems(2) by simp
    ultimately obtain pre sz post where
      "alloc_in t bs = pre @ (sz, True) # post" "f = a + fst b + extent pre"
      "(sz = t \<or> sz = hsize m f) \<and> t \<le> sz \<and> sz \<le> hsize m f"
      using Cons.IH by blast
    moreover have "alloc_in t (b # bs) = b # alloc_in t bs" using False by auto
    ultimately have "alloc_in t (b # bs) = (b # pre) @ (sz, True) # post
        \<and> f = a + extent (b # pre) \<and> (sz = t \<or> sz = hsize m f) \<and> t \<le> sz \<and> sz \<le> hsize m f"
      by (simp add: add.assoc)
    then show ?thesis by blast
  qed
qed

lemma split_block_inside:
  assumes "t \<le> hsize m b" "b + hsize m b < 2 ^ 64" "x < b \<or> b + hsize m b \<le> x"
    and "16 \<le> hsize m b" "t + 32 < 2 ^ 64"
  shows "split_block b t m x = m x"
proof -
  have 1: "set_hused b True m x = m x" using assms by (auto simp: set_hused_frame)
  show ?thesis
  proof (cases "u64 (t + MIN_ALLOC_SIZE) \<le> hsize m b")
    case False
    then show ?thesis using 1 by (simp add: split_block_def Let_def)
  next
    case True
    have "t + 32 \<le> hsize m b" using True assms(5)
      by (simp add: u64_def MIN_ALLOC_SIZE_def sizeof_alloc_header_def)
    moreover have "u64 (b + t) = b + t" using assms(1,2) by (simp add: u64_def)
    ultimately show ?thesis using assms True
      by (auto simp: split_block_def Let_def set_hused_frame set_hsize_frame set_hmagic_frame)
  qed
qed

lemma blocks_at_payload:
  assumes "blocks_at m a (pre @ (z, u) # post)"
    and "\<And>x. x < a + extent pre + 16 \<or> a + extent pre + z \<le> x \<Longrightarrow> m' x = m x"
  shows "blocks_at m' a (pre @ (z, u) # post)"
proof -
  from assms(1) have b: "blocks_at m a pre" "hmagic m (a + extent pre) = ALLOC_MAGIC"
    "hsize m (a + extent pre) = z" "hused m (a + extent pre) = u" "16 \<le> z"
    "blocks_at m (a + extent pre + z) post"
    by (simp_all add: blocks_at_append sizeof_alloc_header_def)
  have 1: "blocks_at m' a pre" by (rule blocks_at_cong[OF b(1)]) (simp add: assms(2))
  have 2: "blocks_at m' (a + extent pre + z) post"
    by (rule blocks_at_cong[OF b(6)]) (simp add: assms(2))
  have "\<And>x. a + extent pre \<le> x \<Longrightarrow> x < a + extent pre + 16 \<Longrightarrow> m' x = m x"
    by (simp add: assms(2))
  note h = header_cong[of "a + extent pre" m' m, OF this]
  show ?thesis using 1 2 h b by (simp add: blocks_at_append sizeof_alloc_header_def)
qed

lemma kfree_frame:
  assumes "heap_layout s (pre @ (sz, True) # post)" and "h = kernel_heap s + extent pre"
    and "x < h \<or> h + 16 \<le> x"
    and "post \<noteq> [] \<and> \<not> snd (hd post) \<longrightarrow> x < h + sz \<or> h + sz + 16 \<le> x"
  shows "mem (kfree (h + sizeof_alloc_header) s) x = mem s x"
proof -
  have "post = [] \<or> snd (hd post) \<or> (\<exists>nsz cs. post = (nsz, False) # cs)"
    by (cases post) auto
  then consider (a) "post = [] \<or> snd (hd post)" | (b) nsz cs where "post = (nsz, False) # cs"
    by blast
  then show ?thesis
  proof cases
    case a
    show ?thesis using kfree_no_merge(1)[OF assms(1,2) a] assms(3)
      by (auto simp: set_hused_frame)
  next
    case b
    show ?thesis using kfree_merge(1)[OF assms(1)[unfolded b] assms(2)] assms(3,4) b
      by (auto simp: set_hused_frame set_hsize_frame set_hmagic_frame)
  qed
qed


lemma first_fit_head_or_far:
  "first_fit t a (b # bs) = Some f \<Longrightarrow> blocks_at m a (b # bs) \<Longrightarrow> f = a \<or> a + fst b \<le> f"
  using first_fit_range[of t "a + fst b" bs f m] by (auto split: if_splits)

lemma krealloc_grow:
  assumes lay: "heap_layout s (pre @ (sz, True) # post)"
    and p: "p = kernel_heap s + extent pre + sizeof_alloc_header"
    and c: "c = sz - sizeof_alloc_header"
    and n: "c < n" "n + 32 \<le> 2 ^ 64"
    and km: "kmalloc n s = Some (q, s1)" and q: "q \<noteq> NULL"
  defines "s' \<equiv> kfree p (s1\<lparr>mem := memcpy (mem s1) q p c\<rparr>)"
  shows "krealloc p n s = Some (q, s')"
    and "\<forall>i<c. mem s' (q + i) = mem s (p + i)"
    and "heap_ok s'"
    and "\<not> hused (mem s') (p - sizeof_alloc_header)"
    and "hused (mem s') (q - sizeof_alloc_header)"
    and "n + sizeof_alloc_header \<le> hsize (mem s') (q - sizeof_alloc_header)"
proof -
  let ?a = "kernel_heap s"
  let ?hp = "?a + extent pre"
  let ?bs = "pre @ (sz, True) # post"
  let ?t = "align16 n + 16"
  note lb = layout_block[OF lay refl]
  have n0: "0 < n" using n by simp
  have al: "n \<le> align16 n" and t: "u64 (align16 n + sizeof_alloc_header) = ?t"
    using align16_bounds[OF n0 n(2)] n(2) by (simp_all add: u64_def sizeof_alloc_header_def)
  have lim: "heap_end s < 2 ^ 64" "0 < ?a" "heap_initialized s"
    using lay by (simp_all add: heap_layout_def)
  obtain hq where ff: "first_fit ?t ?a ?bs = Some hq"
    using kmalloc_layout_none[OF lay n0, unfolded t] km q
    by (cases "first_fit ?t ?a ?bs") auto
  note some = kmalloc_layout_some[OF lay n0, unfolded t, OF ff]
  have qh: "q = hq + 16" and s1: "s1 = s\<lparr>mem := split_block hq ?t (mem s),
      heap_used := u64 (heap_used s + hsize (split_block hq ?t (mem s)) hq)\<rparr>"
    using some km by (simp_all add: sizeof_alloc_header_def)
  let ?fsz = "hsize (mem s) hq"
  have rng: "?a \<le> hq" "hq + ?fsz \<le> heap_end s" "?t \<le> ?fsz" "16 \<le> ?fsz"
    using first_fit_range[OF ff, of "mem s"] lay
    by (simp_all add: heap_layout_def heap_end_def)
  have t32: "?t + 32 < 2 ^ 64"
    using rng by (simp add: heap_end_def KERNEL_HEAP_SIZE_def)
  have side: "(hq + ?fsz \<le> ?hp \<and> first_fit ?t ?a pre \<noteq> None)
      \<or> ((hq = ?hp + sz \<or> ?hp + sz + 16 \<le> hq) \<and> first_fit ?t ?a pre = None \<and> post \<noteq> [])"
  proof (cases "first_fit ?t ?a pre")
    case None
    then have fp: "first_fit ?t (?hp + sz) post = Some hq"
      using ff by (simp add: first_fit_append_used)
    then obtain b cs where pc: "post = b # cs" by (cases post) auto
    have "16 \<le> fst b" using lb(12) pc by (simp add: sizeof_alloc_header_def)
    then show ?thesis
      using first_fit_head_or_far[OF fp[unfolded pc] lb(12)[unfolded pc]] None pc by auto
  next
    case (Some f)
    then have "f = hq" using ff by (simp add: first_fit_append_used)
    then show ?thesis using first_fit_range[OF Some lb(11)] Some by simp
  qed
  have lay1: "heap_layout s1 (alloc_in ?t ?bs)"
    using kmalloc_layout_after[OF lay n0 n(2) km] q by simp
  have kh1: "kernel_heap s1 = ?a" by (simp add: s1)
  obtain pre1 post1 where d1: "alloc_in ?t ?bs = pre1 @ (sz, True) # post1"
    "extent pre1 = extent pre"
    "first_fit ?t ?a pre = None \<longrightarrow> pre1 = pre \<and> post1 = alloc_in ?t post"
    "first_fit ?t ?a pre \<noteq> None \<longrightarrow> post1 = post"
    using alloc_in_append_used[of ?t pre sz post ?a] extent_alloc_in[of ?t pre]
    by (cases "first_fit ?t ?a pre = None") auto
  obtain preq qs postq where dq: "alloc_in ?t ?bs = preq @ (qs, True) # postq"
    "hq = ?a + extent preq" "?t \<le> qs" "qs \<le> ?fsz"
    using alloc_in_found_size[OF ff, of "mem s"] lay by (auto simp: heap_layout_def)
  \<comment> \<open>the copy stays inside the payload of the new block\<close>
  let ?m2 = "memcpy (mem s1) q p c"
  let ?s2 = "s1\<lparr>mem := ?m2\<rparr>"
  have cq: "16 + c < qs" using n(1) al dq(3) by simp
  have "blocks_at ?m2 ?a (preq @ (qs, True) # postq)"
  proof (rule blocks_at_payload)
    show "blocks_at (mem s1) ?a (preq @ (qs, True) # postq)"
      using lay1 by (simp add: heap_layout_def kh1 dq(1))
    fix x assume "x < ?a + extent preq + 16 \<or> ?a + extent preq + qs \<le> x"
    then show "?m2 x = mem s1 x" using cq by (auto simp: memcpy_def qh dq(2))
  qed
  then have lay2: "heap_layout ?s2 (pre1 @ (sz, True) # post1)"
    using lay1 by (simp add: heap_layout_def heap_end_def dq(1) d1(1)[symmetric] kh1)
  have hp2: "?hp = kernel_heap ?s2 + extent pre1" by (simp add: kh1 d1(2))
  have ps: "s' = kfree (?hp + sizeof_alloc_header) ?s2" by (simp add: s'_def p)
  note fr = kfree_layout[OF lay2 hp2, folded ps]
  \<comment> \<open>the return value\<close>
  have "sz < 2 ^ 64" using hsize_bound[of "mem s" ?hp] lb(5) by simp
  then have "sub64 (hsize (mem s) ?hp) sizeof_alloc_header = c"
    using lb(5,7) c by (simp add: sub64_le sizeof_alloc_header_def)
  moreover have "p \<noteq> NULL" "n \<noteq> 0" using n by (simp_all add: p NULL_def sizeof_alloc_header_def)
  moreover have "sub64 p sizeof_alloc_header = ?hp" using lb(8) by (simp add: p)
  ultimately show "krealloc p n s = Some (q, s')"
    using lb(10,5) n(1) km q by (simp add: krealloc_def Let_def s'_def)
  \<comment> \<open>well-formedness and the old block\<close>
  obtain sz' post' where co: "coalesce sz post1 = (sz', False) # post'"
    using coalesce_head by blast
  have lay3: "heap_layout s' (pre1 @ (sz', False) # post')" using fr(1) co by simp
  then show "heap_ok s'" by (auto simp: heap_ok_def heap_layout_def)
  have hp3: "?hp = kernel_heap s' + extent pre1" using fr(4) hp2 by simp
  show "\<not> hused (mem s') (p - sizeof_alloc_header)"
    using layout_block(6)[OF lay3 hp3] by (simp add: p)
  \<comment> \<open>what \<open>kfree\<close> leaves alone\<close>
  have q_used2: "hused ?m2 hq" "hsize ?m2 hq = qs"
    using layout_block(5,6)[of ?s2 preq qs True postq hq] lay2 dq(1,2) d1(1) kh1 by simp_all
  have keep: "mem s' x = ?m2 x" if "hq \<le> x" "x < hq + qs" for x
    unfolding ps
  proof (rule kfree_frame[OF lay2 hp2, simplified])
    show "x < ?hp \<or> ?hp + 16 \<le> x" using side that dq(4) lb(7) by auto
    show "post1 \<noteq> [] \<and> \<not> snd (hd post1) \<longrightarrow> x < ?hp + sz \<or> ?hp + sz + 16 \<le> x"
    proof (intro impI)
      assume a: "post1 \<noteq> [] \<and> \<not> snd (hd post1)"
      then obtain b cs where pc: "post1 = b # cs" "\<not> snd b" by (cases post1) auto
      have "\<not> hused ?m2 (?hp + sz)"
        using layout_block(12)[OF lay2 hp2] pc by simp
      then have "hq \<noteq> ?hp + sz" using q_used2 by auto
      then show "x < ?hp + sz \<or> ?hp + sz + 16 \<le> x" using side that dq(4) by auto
    qed
  qed
  have "\<And>x. hq \<le> x \<Longrightarrow> x < hq + 16 \<Longrightarrow> mem s' x = ?m2 x"
    using keep cq by simp
  note hd = header_cong[of hq "mem s'" ?m2, OF this]
  show "hused (mem s') (q - sizeof_alloc_header)"
    using hd(3) q_used2 by (simp add: qh sizeof_alloc_header_def)
  show "n + sizeof_alloc_header \<le> hsize (mem s') (q - sizeof_alloc_header)"
    using hd(1) q_used2 al dq(3) by (simp add: qh sizeof_alloc_header_def)
  \<comment> \<open>the payload\<close>
  show "\<forall>i<c. mem s' (q + i) = mem s (p + i)"
  proof (intro allI impI)
    fix i assume i: "i < c"
    have "mem s' (q + i) = ?m2 (q + i)" using i cq by (intro keep) (simp_all add: qh)
    also have "\<dots> = mem s1 (p + i)" using i by (simp add: memcpy_def)
    also have "\<dots> = mem s (p + i)"
      unfolding s1 using rng lim side i c lb(7) t32
      by (simp, intro split_block_inside) (auto simp: p sizeof_alloc_header_def)
    finally show "mem s' (q + i) = mem s (p + i)" .
  qed
qed


lemma kmalloc_total:
  assumes "heap_layout s bs" "0 < n"
  shows "\<exists>q s1. kmalloc n s = Some (q, s1) \<and>
           (q = NULL \<longrightarrow> s1 = s\<lparr>klog := klog s @ [MM_OutOfMemory (align16 n)]\<rparr>)"
proof (cases "first_fit (u64 (align16 n + sizeof_alloc_header)) (kernel_heap s) bs")
  case None
  from kmalloc_layout_none[OF assms None] show ?thesis by simp
next
  case (Some b)
  have "kernel_heap s \<le> b" using first_fit_range[OF Some, of "mem s"] assms(1)
    by (simp add: heap_layout_def)
  then have "b + sizeof_alloc_header \<noteq> NULL" using assms(1)
    by (simp add: NULL_def heap_layout_def)
  with kmalloc_layout_some[OF assms Some] show ?thesis by simp
qed



lemma find_free_stuck:
  assumes "cur < hend" "hmagic m cur = ALLOC_MAGIC" "hused m cur" "hsize m cur = 0"
    and "cur < 2 ^ 64"
  shows "find_free_loop m hend sz cur = None"
proof (rule ccontr)
  assume "find_free_loop m hend sz cur \<noteq> None"
  then obtain y where y: "find_free_loop m hend sz cur = Some y" by auto
  have "\<not> (cur < hend \<and> hmagic m cur = ALLOC_MAGIC \<and> hused m cur \<and> hsize m cur = 0
      \<and> cur < 2 ^ 64)"
  proof (rule find_free_loop.raw_induct[where
        P="\<lambda>m hend sz cur y. \<not> (cur < hend \<and> hmagic m cur = ALLOC_MAGIC \<and> hused m cur
            \<and> hsize m cur = 0 \<and> cur < 2 ^ 64)"
        and m=m and hend=hend and sz=sz and current=cur and y=y])
    show "find_free_loop m hend sz cur = Some y" by (rule y)
  next
    fix f :: "memory \<Rightarrow> nat \<Rightarrow> nat \<Rightarrow> nat \<Rightarrow> (kmsg list \<times> nat) option"
    fix m hend sz current ma
    assume IH: "\<And>m hend sz current y. f m hend sz current = Some y \<Longrightarrow>
        \<not> (current < hend \<and> hmagic m current = ALLOC_MAGIC \<and> hused m current
            \<and> hsize m current = 0 \<and> current < 2 ^ 64)"
      and body: "(if current < hend
          then if hmagic m current \<noteq> ALLOC_MAGIC then Some ([MM_Corrupted current], NULL)
               else if \<not> hused m current \<and> sz \<le> hsize m current then Some ([], current)
                    else f m hend sz (u64 (current + hsize m current))
          else Some ([], NULL)) = Some ma"
    show "\<not> (current < hend \<and> hmagic m current = ALLOC_MAGIC \<and> hused m current
            \<and> hsize m current = 0 \<and> current < 2 ^ 64)"
    proof
      assume c: "current < hend \<and> hmagic m current = ALLOC_MAGIC \<and> hused m current
            \<and> hsize m current = 0 \<and> current < 2 ^ 64"
      then have "f m hend sz current = Some ma" using body by (simp add: u64_def)
      from IH[OF this] c show False by simp
    qed
  qed
  with assms show False by simp
qed


section \<open>EXT4 reader: the environment\<close>

lemma kmalloc_w_live:
  "kmalloc_w sz w = (r, w1) \<Longrightarrow>
    dev_log w1 = dev_log w \<and> alloc_plan w1 = alloc_plan w \<and> stack_junk w1 = stack_junk w
    \<and> (case r of None \<Rightarrow> live w1 = live w | Some (h, j) \<Rightarrow> live w1 = h # live w \<and> sz \<noteq> 0)"
  by (auto simp: kmalloc_w_def split: if_splits option.splits)

lemma kmalloc_w_None [simp]: "kmalloc_w sz w = (None, w1) \<Longrightarrow> live w1 = live w"
  using kmalloc_w_live[of sz w None w1] by simp

lemma kmalloc_w_Some [simp]: "kmalloc_w sz w = (Some (h, j), w1) \<Longrightarrow> live w1 = h # live w"
  using kmalloc_w_live[of sz w "Some (h, j)" w1] by simp


lemma kmalloc_w_junk [simp]: "kmalloc_w sz w = (r, w1) \<Longrightarrow> stack_junk w1 = stack_junk w"
  using kmalloc_w_live[of sz w r w1] by simp

lemma kfree_w_simps [simp]:
  "live (kfree_w h w) = remove1 h (live w)" "dev_log (kfree_w h w) = dev_log w"
  "stack_junk (kfree_w h w) = stack_junk w"
  by (simp_all add: kfree_w_def)



lemma rd_le_zero [simp]: "rd_le n (\<lambda>_. 0) a = 0"
  by (induction n arbitrary: a) simp_all



subsection \<open>Mounting\<close>







lemma sb_geometry_incompat [simp]:
  "sb_block_size (sblk\<lparr>s_feature_incompat := x\<rparr>) = sb_block_size sblk"
  "sb_gdesc_blocks (sblk\<lparr>s_feature_incompat := x\<rparr>) = sb_gdesc_blocks sblk"
  "mount_fs dev hfs (sblk\<lparr>s_feature_incompat := x\<rparr>) hgdt gdt
    = (mount_fs dev hfs sblk hgdt gdt)\<lparr>sb := (sb (mount_fs dev hfs sblk hgdt gdt))\<lparr>s_feature_incompat := x\<rparr>\<rparr>"
  by (simp_all add: sb_block_size_def sb_gdesc_blocks_def sb_groups_count_def
      sb_block_count_def mount_fs_def)

















subsection \<open>Mounting on a device that works\<close>

lemma kfree_w_plan [simp]: "alloc_plan (kfree_w h w) k = alloc_plan w k"
  by (simp add: kfree_w_def)













subsection \<open>Reading a directory\<close>

lemma readdir_in_block_found:
  assumes "readdir_in_block buf bsize index e off0 = Some (Inl off)"
  shows "off < bsize \<and> de_inode buf off \<noteq> 0 \<and> de_rec_len buf off \<noteq> 0"
proof -
  have "(Inl off :: nat + nat) = Inl off \<longrightarrow> off < bsize \<and> de_inode buf off \<noteq> 0 \<and> de_rec_len buf off \<noteq> 0"
  proof (rule readdir_in_block.raw_induct[where
        P="\<lambda>buf bsize index e off0 y. y = Inl off \<longrightarrow>
              off < bsize \<and> de_inode buf off \<noteq> 0 \<and> de_rec_len buf off \<noteq> 0"
        and buf=buf and bsize=bsize and index=index and entry_idx=e and offset=off0
        and y="Inl off"])
    show "readdir_in_block buf bsize index e off0 = Some (Inl off)" by (rule assms)
  next
    fix f :: "memory \<Rightarrow> nat \<Rightarrow> nat \<Rightarrow> nat \<Rightarrow> nat \<Rightarrow> (nat + nat) option"
    fix buf bsize index entry_idx offset y
    assume IH: "\<And>buf bsize index entry_idx offset y. f buf bsize index entry_idx offset = Some y \<Longrightarrow>
        y = Inl off \<longrightarrow> off < bsize \<and> de_inode buf off \<noteq> 0 \<and> de_rec_len buf off \<noteq> 0"
      and body: "(if offset < bsize then
           if de_rec_len buf offset = 0 then Some (Inr entry_idx)
           else if de_inode buf offset \<noteq> 0 \<and> entry_idx = index then Some (Inl offset)
           else f buf bsize index
                  (if de_inode buf offset \<noteq> 0 then u32 (entry_idx + 1) else entry_idx)
                  (u32 (offset + de_rec_len buf offset))
         else Some (Inr entry_idx)) = Some y"
    show "y = Inl off \<longrightarrow> off < bsize \<and> de_inode buf off \<noteq> 0 \<and> de_rec_len buf off \<noteq> 0"
    proof
      assume y: "y = Inl off"
      show "off < bsize \<and> de_inode buf off \<noteq> 0 \<and> de_rec_len buf off \<noteq> 0"
      proof (cases "offset < bsize \<and> de_rec_len buf offset \<noteq> 0")
        case False
        with body y show ?thesis by (auto split: if_splits)
      next
        case True
        show ?thesis
        proof (cases "de_inode buf offset \<noteq> 0 \<and> entry_idx = index")
          case hit: True
          with True body y show ?thesis by auto
        next
          case False
          with True body have "f buf bsize index
                  (if de_inode buf offset \<noteq> 0 then u32 (entry_idx + 1) else entry_idx)
                  (u32 (offset + de_rec_len buf offset)) = Some y"
            by (simp split: if_splits)
          from IH[OF this] y show ?thesis by simp
        qed
      qed
    qed
  qed
  then show ?thesis by simp
qed

lemma readdir_blocks_found:
  "readdir_blocks fs ino index h n k e buf0 dirent w = Some ((0, d'), w') \<Longrightarrow>
    \<exists>k' b0 w0 r buf w1 e' off.
       ext4_read_file_block fs ino k' b0 w0 = Some ((r, buf), w1) \<and> \<not> r < 0
     \<and> readdir_in_block buf (block_size fs) index e' 0 = Some (Inl off)
     \<and> d' = fill_dirent buf off dirent"
proof (induction n arbitrary: k e buf0 w)
  case 0
  then show ?case by simp
next
  case (Suc n)
  from Suc.prems obtain r buf w1 where
    rf: "ext4_read_file_block fs ino k buf0 w = Some ((r, buf), w1)"
    by (auto split: option.splits)
  show ?case
  proof (cases "r < 0")
    case True
    with Suc.prems rf show ?thesis by simp
  next
    case False
    from Suc.prems rf False obtain res where
      rd: "readdir_in_block buf (block_size fs) index e 0 = Some res"
      by (auto split: option.splits)
    show ?thesis
    proof (cases res)
      case (Inl off)
      with Suc.prems rf False rd have "d' = fill_dirent buf off dirent" by simp
      with rf False rd Inl show ?thesis by blast
    next
      case (Inr e')
      with Suc.prems rf False rd have
        "readdir_blocks fs ino index h n (Suc k) e' buf dirent w1 = Some ((0, d'), w')"
        by simp
      from Suc.IH[OF this] show ?thesis .
    qed
  qed
qed

lemma de_name_len_byte: "de_name_len buf off \<le> 255"
proof -
  have "unat (buf (off + 6)) < 2 ^ 8" using unsigned_less[of "buf (off + 6)"] by simp
  then show ?thesis by (simp add: de_name_len_def)
qed

lemma fill_dirent_name:
  "d_name (fill_dirent buf off dirent) (de_name_len buf off) = 0"
  "i < de_name_len buf off \<Longrightarrow> d_name (fill_dirent buf off dirent) i = de_name buf off i"
  "de_name_len buf off < i \<Longrightarrow> d_name (fill_dirent buf off dirent) i = d_name dirent i"
  "d_inode (fill_dirent buf off dirent) = de_inode buf off"
  using de_name_len_byte[of buf off]
  by (simp_all add: fill_dirent_def VFS_NAME_MAX_def Let_def)

subsection \<open>Extent resolution\<close>

declare pick_index.simps [simp del] leaf_scan.simps [simp del]
















subsection \<open>A root node that is a leaf\<close>










subsection \<open>The concrete inodes and nodes\<close>









section \<open>Claims about the allocator\<close>

text \<open>
  C4. On a well-formed arena, for every \<open>n > 0\<close>: when \<open>kmalloc n\<close> returns a
  pointer \<open>p\<close> and \<open>kfree p\<close> succeeds (it reports no error), a second
  \<open>kfree p\<close> finds the block already marked free, reports the double free and returns
  having changed nothing else: memory (so the size, used flag and magic of every block)
  and the used-byte counter are the same as before the call.
\<close>


theorem double_free_detected:
  assumes ok: "heap_ok s" and n: "0 < n"
    and km: "kmalloc n s = Some (p, s1)" and p: "p \<noteq> NULL"
    and first: "klog (kfree p s1) = klog s1"
  shows "kfree p (kfree p s1) = (kfree p s1)\<lparr>klog := klog (kfree p s1) @ [MM_DoubleFree p]\<rparr>"
proof -
  let ?s = "if heap_initialized s then s else snd (kmalloc_init s)"
  let ?t = "u64 (align16 n + sizeof_alloc_header)"
  obtain bs where lay: "heap_layout ?s bs" using heap_ok_init[OF ok] by blast
  have km': "kmalloc n ?s = Some (p, s1)" using km kmalloc_unfold_init[OF n, of s] by simp
  obtain b where ff: "first_fit ?t (kernel_heap ?s) bs = Some b"
    using kmalloc_layout_none[OF lay n] km' p by (cases "first_fit ?t (kernel_heap ?s) bs") auto
  note some = kmalloc_layout_some[OF lay n ff]
  have pb: "p = b + sizeof_alloc_header"
    and s1: "s1 = ?s\<lparr>mem := split_block b ?t (mem ?s),
        heap_used := u64 (heap_used ?s + hsize (split_block b ?t (mem ?s)) b)\<rparr>"
    using some km' by simp_all
  have rng: "kernel_heap ?s \<le> b" "b + hsize (mem ?s) b \<le> heap_end ?s" "?t \<le> hsize (mem ?s) b"
      "16 \<le> hsize (mem ?s) b"
    using first_fit_range[OF ff, of "mem ?s"] lay by (simp_all add: heap_layout_def heap_end_def)
  have lim: "heap_end ?s < 2 ^ 64" "heap_initialized ?s" using lay by (simp_all add: heap_layout_def)
  have sb: "sub64 p sizeof_alloc_header = b"
    using rng lim by (simp add: pb sub64_le sizeof_alloc_header_def)
  have valid: "validate_block s1 b"
  proof (rule ccontr)
    assume "\<not> validate_block s1 b"
    then have "kfree p s1 = s1\<lparr>klog := klog s1 @ [MM_InvalidFree p]\<rparr>"
      using p sb lim by (simp add: kfree_def Let_def s1)
    with first show False by simp
  qed
  have tcase: "16 \<le> ?t \<or> hsize (mem ?s) b < ?t + 32"
  proof (rule ccontr)
    assume "\<not> ?thesis"
    then have "?t < 16" "32 \<le> hsize (mem ?s) b" by simp_all
    with total_mult16[of n] have "?t = 0" by (metis mod_less)
    then have "hsize (mem s1) b = 0"
      using split_block_zero[OF \<open>32 \<le> hsize (mem ?s) b\<close>] by (simp add: s1)
    with valid show False
      by (auto simp: validate_block_def sizeof_alloc_header_def split: if_splits)
  qed
  have "?t \<le> KERNEL_HEAP_SIZE" using rng by (simp add: heap_end_def)
  then have t32: "?t + 32 < 2 ^ 64" by (simp add: KERNEL_HEAP_SIZE_def)
  have "blocks_at (mem s1) (kernel_heap ?s) (alloc_in ?t bs)"
    unfolding s1 using lay ff tcase t32
    by (simp add: heap_layout_def heap_end_def split_block_blocks)
  then have lay1: "heap_layout s1 (alloc_in ?t bs)"
    using lay by (simp add: heap_layout_def heap_end_def extent_alloc_in s1)
  obtain pre sz post where dec: "alloc_in ?t bs = pre @ (sz, True) # post"
    "b = kernel_heap ?s + extent pre"
    using alloc_in_found[OF ff] by blast
  have b1: "b = kernel_heap s1 + extent pre" using dec(2) by (simp add: s1)
  note fr = kfree_layout[OF lay1[unfolded dec(1)] b1]
  obtain sz' post' where "coalesce sz post = (sz', False) # post'"
    using coalesce_head by blast
  with fr(1) have lay2: "heap_layout (kfree p s1) (pre @ (sz', False) # post')"
    by (simp add: pb)
  have b2: "b = kernel_heap (kfree p s1) + extent pre" using fr(4) b1 by (simp add: pb)
  show ?thesis using kfree_double[OF lay2 b2] by (simp add: pb)
qed

theorem double_free_detected_witness:
  "heap_ok fresh_heap \<and> (0::nat) < 16 \<and> kmalloc 16 fresh_heap = Some (0x100010, heap_a)
   \<and> (0x100010::nat) \<noteq> NULL \<and> klog (kfree 0x100010 heap_a) = klog heap_a
   \<and> kfree 0x100010 (kfree 0x100010 heap_a)
      = (kfree 0x100010 heap_a)\<lparr>klog := klog (kfree 0x100010 heap_a) @ [MM_DoubleFree 0x100010]\<rparr>"
proof -
  have p: "(0x100010::nat) \<noteq> NULL" by (simp add: NULL_def)
  have "klog (kfree (0x100000 + sizeof_alloc_header) heap_a) = klog heap_a"
    by (rule kfree_layout(2)[where pre="[]" and sz=32 and post="[(4194272, False)]"])
      (simp_all add: heap_a_facts)
  then have first: "klog (kfree 0x100010 heap_a) = klog heap_a"
    by (simp add: sizeof_alloc_header_def)
  from double_free_detected[OF fresh_heap_ok _ heap_a_facts(1) p first]
  show ?thesis using fresh_heap_ok heap_a_facts(1) p first by simp
qed

text \<open>
  C1 (as amended). Two adjacent live blocks, the left one at payload address \<open>pa\<close> and
  the right one at \<open>pb\<close>: freeing the right block first and then the left one leaves
  one free block that starts at the left block's header and spans both extents (and the
  block after them as well, when that one was free); the absorbed header of the right block
  has its magic cleared. Freeing the left block first leaves two separate free blocks, since
  \<open>kfree\<close> merges a block only with the block that follows it.
\<close>


theorem free_adjacent_blocks:
  assumes "heap_layout s (pre @ (sl, True) # (sr, True) # post)"
    and "pa = kernel_heap s + extent pre + sizeof_alloc_header" and "pb = pa + sl"
  shows "heap_layout (kfree pa (kfree pb s)) (pre @ coalesce (sl + sr) post)
       \<and> hmagic (mem (kfree pa (kfree pb s))) (pb - sizeof_alloc_header) = 0
       \<and> heap_layout (kfree pb (kfree pa s)) (pre @ (sl, False) # coalesce sr post)"
proof -
  let ?ha = "kernel_heap s + extent pre"
  have hb: "?ha + sl = kernel_heap s + extent (pre @ [(sl, True)])" by simp
  have pb: "pb = ?ha + sl + sizeof_alloc_header" using assms(2,3) by simp
  \<comment> \<open>right block first\<close>
  have l1: "heap_layout s ((pre @ [(sl, True)]) @ (sr, True) # post)" using assms(1) by simp
  note r1 = kfree_layout[OF l1 hb]
  obtain sr' post' where c: "coalesce sr post = (sr', False) # post'"
    using coalesce_head by blast
  have c2: "coalesce sl ((sr', False) # post') = coalesce (sl + sr) post"
    using c by (cases post) (auto simp: coalesce_def split: if_splits)
  have l2: "heap_layout (kfree pb s) (pre @ (sl, True) # (sr', False) # post')"
    using r1(1) c by (simp add: pb)
  have "?ha = kernel_heap (kfree pb s) + extent pre" using r1(4) by (simp add: pb)
  note r2 = kfree_merge[OF l2 this]
  have A: "heap_layout (kfree pa (kfree pb s)) (pre @ coalesce (sl + sr) post)"
    using r2(2) c c2 by (simp add: assms(2) coalesce_def)
  have B: "hmagic (mem (kfree pa (kfree pb s))) (pb - sizeof_alloc_header) = 0"
    using r2(3) by (simp add: assms(2) pb)
  \<comment> \<open>left block first\<close>
  note r3 = kfree_layout[OF assms(1) refl]
  have l3: "heap_layout (kfree pa s) ((pre @ [(sl, False)]) @ (sr, True) # post)"
    using r3(1) by (simp add: assms(2) coalesce_def)
  have "?ha + sl = kernel_heap (kfree pa s) + extent (pre @ [(sl, False)])"
    using r3(4) by (simp add: assms(2))
  from kfree_layout(1)[OF l3 this]
  have C: "heap_layout (kfree pb (kfree pa s)) (pre @ (sl, False) # coalesce sr post)"
    by (simp add: pb)
  from A B C show ?thesis by simp
qed

theorem free_adjacent_blocks_witness:
  "heap_layout heap_abc ([] @ (32, True) # (32, True) # [(32, True), (4194208, False)])
   \<and> (0x100010::nat) = kernel_heap heap_abc + extent [] + sizeof_alloc_header
   \<and> (0x100030::nat) = 0x100010 + 32
   \<and> heap_layout (kfree 0x100010 (kfree 0x100030 heap_abc))
        ([] @ coalesce (32 + 32) [(32, True), (4194208, False)])
   \<and> hmagic (mem (kfree 0x100010 (kfree 0x100030 heap_abc))) (0x100030 - sizeof_alloc_header) = 0
   \<and> heap_layout (kfree 0x100030 (kfree 0x100010 heap_abc))
        ([] @ (32, False) # coalesce 32 [(32, True), (4194208, False)])"
proof -
  have 1: "heap_layout heap_abc ([] @ (32, True) # (32, True) # [(32, True), (4194208, False)])"
    using heap_abc_facts(2) by simp
  have 2: "(0x100010::nat) = kernel_heap heap_abc + extent [] + sizeof_alloc_header"
    by (simp add: heap_abc_facts sizeof_alloc_header_def)
  have 3: "(0x100030::nat) = 0x100010 + 32" by simp
  from free_adjacent_blocks[OF 1 2 3] 1 2 3 show ?thesis by blast
qed

text \<open>
  C1 as stated fails when the left block is freed first: the two freed blocks stay two
  blocks of 32 bytes each.
\<close>

theorem free_left_then_right_counterexample:
  "heap_layout heap_abc [(32, True), (32, True), (32, True), (4194208, False)]
   \<and> heap_layout (kfree 0x100030 (kfree 0x100010 heap_abc))
        [(32, False), (32, False), (32, True), (4194208, False)]"
proof -
  have a: "heap_layout heap_abc ([] @ (32, True) # [(32, True), (32, True), (4194208, False)])"
    using heap_abc_facts(2) by simp
  have "heap_layout (kfree (0x100000 + sizeof_alloc_header) heap_abc)
      ([] @ coalesce 32 [(32, True), (32, True), (4194208, False)])"
    by (rule kfree_layout(1)[OF a]) (simp add: heap_abc_facts)
  then have b: "heap_layout (kfree 0x100010 heap_abc)
      ([(32, False)] @ (32, True) # [(32, True), (4194208, False)])"
    by (simp add: coalesce_def sizeof_alloc_header_def)
  have kh: "kernel_heap (kfree (0x100000 + sizeof_alloc_header) heap_abc) = kernel_heap heap_abc"
    by (rule kfree_layout(4)[OF a]) (simp add: heap_abc_facts)
  have "heap_layout (kfree (0x100020 + sizeof_alloc_header) (kfree 0x100010 heap_abc))
      ([(32, False)] @ coalesce 32 [(32, True), (4194208, False)])"
    by (rule kfree_layout(1)[OF b]) (use kh in \<open>simp add: heap_abc_facts sizeof_alloc_header_def\<close>)
  then show ?thesis
    using heap_abc_facts(2) by (simp add: coalesce_def sizeof_alloc_header_def)
qed

text \<open>
  C3 (as amended). For a live allocation \<open>p\<close> with payload capacity \<open>c\<close> on a
  well-formed arena: \<open>krealloc NULL n\<close> is \<open>kmalloc n\<close>; \<open>krealloc p 0\<close> frees
  \<open>p\<close> and returns \<open>NULL\<close>; \<open>krealloc p n\<close> with \<open>0 < n \<le> c\<close> returns
  \<open>p\<close> and leaves the heap as it is; and \<open>krealloc p n\<close> with \<open>n > c\<close> (and
  \<open>n \<le> 2^64 - 32\<close>) calls \<open>kmalloc n\<close>: when that fails it returns \<open>NULL\<close>
  and the old block stays allocated and untouched, otherwise it copies the \<open>c\<close> payload
  bytes of the old block into the new one, frees the old block and returns the new
  pointer, whose block is live and holds at least \<open>n\<close> bytes.
\<close>


theorem krealloc_cases:
  assumes lay: "heap_layout s (pre @ (sz, True) # post)"
    and p: "p = kernel_heap s + extent pre + sizeof_alloc_header"
    and c: "c = sz - sizeof_alloc_header"
  shows "krealloc NULL n s = kmalloc n s
    \<and> krealloc p 0 s = Some (NULL, kfree p s)
    \<and> (0 < n \<and> n \<le> c \<longrightarrow> krealloc p n s = Some (p, s))
    \<and> (c < n \<and> n + 32 \<le> 2 ^ 64 \<longrightarrow>
        (\<exists>q s1. kmalloc n s = Some (q, s1) \<and>
          (if q = NULL
           then krealloc p n s = Some (NULL, s1) \<and> mem s1 = mem s \<and> heap_used s1 = heap_used s
           else let s' = kfree p (s1\<lparr>mem := memcpy (mem s1) q p c\<rparr>)
                in krealloc p n s = Some (q, s')
                   \<and> (\<forall>i<c. mem s' (q + i) = mem s (p + i))
                   \<and> heap_ok s'
                   \<and> \<not> hused (mem s') (p - sizeof_alloc_header)
                   \<and> hused (mem s') (q - sizeof_alloc_header)
                   \<and> n + sizeof_alloc_header \<le> hsize (mem s') (q - sizeof_alloc_header))))"
proof -
  note lb = layout_block[OF lay refl]
  have pn: "p \<noteq> NULL" by (simp add: p NULL_def sizeof_alloc_header_def)
  have hp: "sub64 p sizeof_alloc_header = kernel_heap s + extent pre" using lb(8) by (simp add: p)
  have "sz < 2 ^ 64" using hsize_bound[of "mem s" "kernel_heap s + extent pre"] lb(5) by simp
  then have cs: "sub64 (hsize (mem s) (kernel_heap s + extent pre)) sizeof_alloc_header = c"
    using lb(5,7) c by (simp add: sub64_le sizeof_alloc_header_def)
  have 1: "krealloc NULL n s = kmalloc n s" by (simp add: krealloc_def)
  have 2: "krealloc p 0 s = Some (NULL, kfree p s)" using pn by (simp add: krealloc_def)
  have 3: "krealloc p n s = Some (p, s)" if "0 < n \<and> n \<le> c"
    using that pn hp cs lb(10) by (simp add: krealloc_def Let_def)
  have 4: "\<exists>q s1. kmalloc n s = Some (q, s1) \<and>
          (if q = NULL
           then krealloc p n s = Some (NULL, s1) \<and> mem s1 = mem s \<and> heap_used s1 = heap_used s
           else let s' = kfree p (s1\<lparr>mem := memcpy (mem s1) q p c\<rparr>)
                in krealloc p n s = Some (q, s')
                   \<and> (\<forall>i<c. mem s' (q + i) = mem s (p + i))
                   \<and> heap_ok s'
                   \<and> \<not> hused (mem s') (p - sizeof_alloc_header)
                   \<and> hused (mem s') (q - sizeof_alloc_header)
                   \<and> n + sizeof_alloc_header \<le> hsize (mem s') (q - sizeof_alloc_header))"
    if n: "c < n \<and> n + 32 \<le> 2 ^ 64"
  proof -
    have n0: "0 < n" using n by simp
    obtain q s1 where km: "kmalloc n s = Some (q, s1)"
      and fail: "q = NULL \<longrightarrow> s1 = s\<lparr>klog := klog s @ [MM_OutOfMemory (align16 n)]\<rparr>"
      using kmalloc_total[OF lay n0] by blast
    show ?thesis
    proof (cases "q = NULL")
      case True
      then have "krealloc p n s = Some (NULL, s1)"
        using n pn hp cs lb(10) km by (simp add: krealloc_def Let_def)
      then show ?thesis using True km fail by auto
    next
      case False
      from krealloc_grow[OF lay p c _ _ km False] n False km
      show ?thesis by (simp add: Let_def)
    qed
  qed
  from 1 2 3 4 show ?thesis by blast
qed

theorem krealloc_cases_witness:
  "heap_layout heap_ab ([] @ (32, True) # [(32, True), (4194240, False)])
   \<and> (0x100010::nat) = kernel_heap heap_ab + extent [] + sizeof_alloc_header
   \<and> (16::nat) = 32 - sizeof_alloc_header
   \<and> krealloc NULL 8 heap_ab = kmalloc 8 heap_ab
   \<and> krealloc 0x100010 0 heap_ab = Some (NULL, kfree 0x100010 heap_ab)
   \<and> krealloc 0x100010 8 heap_ab = Some (0x100010, heap_ab)"
proof -
  have 1: "heap_layout heap_ab ([] @ (32, True) # [(32, True), (4194240, False)])"
    using heap_ab_facts(2) by simp
  have 2: "(0x100010::nat) = kernel_heap heap_ab + extent [] + sizeof_alloc_header"
    by (simp add: heap_ab_facts sizeof_alloc_header_def)
  have 3: "(16::nat) = 32 - sizeof_alloc_header" by (simp add: sizeof_alloc_header_def)
  from krealloc_cases[OF 1 2 3, of 8] 1 2 3 show ?thesis by simp
qed

text \<open>
  C3 as stated fails when no block is large enough: \<open>krealloc\<close> of a live 16-byte
  allocation to 4 MiB returns \<open>NULL\<close>; nothing is allocated, copied or freed.
\<close>

theorem krealloc_out_of_memory_counterexample:
  "heap_layout heap_ab [(32, True), (32, True), (4194240, False)]
   \<and> kernel_heap heap_ab = 0x100000
   \<and> krealloc 0x100010 4194304 heap_ab
       = Some (NULL, heap_ab\<lparr>klog := klog heap_ab @ [MM_OutOfMemory 4194304]\<rparr>)"
proof -
  have a: "align16 4194304 = 4194304" by (simp add: align16_def u64_def)
  have "first_fit (u64 (align16 4194304 + sizeof_alloc_header)) (kernel_heap heap_ab)
      [(32, True), (32, True), (4194240, False)] = None"
    by (simp add: a u64_def sizeof_alloc_header_def)
  from kmalloc_layout_none[OF heap_ab_facts(2) _ this]
  have km: "kmalloc 4194304 heap_ab
      = Some (NULL, heap_ab\<lparr>klog := klog heap_ab @ [MM_OutOfMemory 4194304]\<rparr>)"
    by (simp add: a)
  have l: "heap_layout heap_ab ([] @ (32, True) # [(32, True), (4194240, False)])"
    using heap_ab_facts(2) by simp
  note lb = layout_block[OF l refl]
  have "sub64 (0x100010::nat) sizeof_alloc_header = 0x100000"
    by (simp add: sub64_def sizeof_alloc_header_def)
  moreover have "sub64 (32::nat) sizeof_alloc_header = 16"
    by (simp add: sub64_def sizeof_alloc_header_def)
  ultimately have "krealloc 0x100010 4194304 heap_ab
       = Some (NULL, heap_ab\<lparr>klog := klog heap_ab @ [MM_OutOfMemory 4194304]\<rparr>)"
    using lb(5,10) km by (simp add: krealloc_def Let_def NULL_def heap_ab_facts)
  then show ?thesis using heap_ab_facts by simp
qed

text \<open>
  C2 at the failing input \<open>kmalloc (SIZE_MAX - 16)\<close> on a fresh heap: the rounded size
  plus the header wraps around to 0, the first block is handed out and its size field
  becomes 0. The arena is no longer a block sequence (a walk by size fields never leaves
  the first block) and the next \<open>kmalloc\<close> does not return.
\<close>

theorem kmalloc_size_overflow:
  "\<exists>s'. kmalloc (2 ^ 64 - 17) fresh_heap = Some (0x100010, s')
       \<and> kernel_heap s' = 0x100000
       \<and> hmagic (mem s') 0x100000 = ALLOC_MAGIC \<and> hused (mem s') 0x100000
       \<and> hsize (mem s') 0x100000 = 0
       \<and> kmalloc 16 s' = None"
proof -
  let ?s = "snd (kmalloc_init fresh_heap)"
  let ?n = "18446744073709551599 :: nat"
  have n: "(2::nat) ^ 64 - 17 = ?n" by simp
  have l0: "heap_layout ?s [(KERNEL_HEAP_SIZE, False)]"
    by (rule kmalloc_init_layout)
      (simp_all add: fresh_heap_def heap_end_def KERNEL_HEAP_SIZE_def)
  have kh: "kernel_heap ?s = 0x100000"
    by (simp add: kmalloc_init_def fresh_heap_def Let_def)
  have t: "u64 (align16 ?n + sizeof_alloc_header) = 0"
    by (simp add: align16_def u64_def sizeof_alloc_header_def)
  have ff: "first_fit (u64 (align16 ?n + sizeof_alloc_header)) (kernel_heap ?s)
      [(KERNEL_HEAP_SIZE, False)] = Some 0x100000"
    by (simp add: t kh)
  let ?m = "split_block 0x100000 0 (mem ?s)"
  let ?s' = "?s\<lparr>mem := ?m, heap_used := u64 (heap_used ?s + hsize ?m 0x100000)\<rparr>"
  have "kmalloc ?n ?s = Some (0x100000 + sizeof_alloc_header, ?s')"
    using kmalloc_layout_some[OF l0 _ ff] by (simp add: t)
  moreover have "kmalloc ?n fresh_heap = kmalloc ?n ?s"
    by (rule kmalloc_uninit) (simp_all add: fresh_heap_def)
  ultimately have km: "kmalloc ?n fresh_heap = Some (0x100010, ?s')"
    by (simp add: sizeof_alloc_header_def)
  have old: "hsize (mem ?s) 0x100000 = KERNEL_HEAP_SIZE" "hmagic (mem ?s) 0x100000 = ALLOC_MAGIC"
    using l0 by (simp_all add: heap_layout_def kh)
  have sz: "hsize ?m 0x100000 = 0"
    by (rule split_block_zero) (simp add: old KERNEL_HEAP_SIZE_def)
  have mg: "hmagic ?m 0x100000 = ALLOC_MAGIC" and us: "hused ?m 0x100000"
    using old by (simp_all add: split_block_def Let_def u64_def MIN_ALLOC_SIZE_def
        sizeof_alloc_header_def KERNEL_HEAP_SIZE_def ALLOC_MAGIC_def)
  have "find_free_loop ?m (heap_end ?s') (u64 (align16 16 + sizeof_alloc_header)) 0x100000 = None"
    by (rule find_free_stuck)
      (simp_all add: mg us sz heap_end_def kh KERNEL_HEAP_SIZE_def)
  then have "find_free_block (u64 (align16 16 + sizeof_alloc_header)) ?s' = None"
    by (simp add: find_free_block_def kh)
  moreover have "heap_initialized ?s'" using l0 by (simp add: heap_layout_def)
  ultimately have hang: "kmalloc 16 ?s' = None"
    by (simp add: kmalloc_def Let_def)
  show ?thesis unfolding n using km kh mg us sz hang by simp
qed
section \<open>Claims about the EXT4 reader\<close>

text \<open>
  C7. On a filesystem with a non-zero block size (as every mounted one has) and for an
  inode of 64-bit size \<open>s\<close>, \<open>ext4_read_file_block\<close> at a logical block at or
  beyond \<open>ceil (s / block_size)\<close> returns 0 with the buffer's first \<open>block_size\<close>
  bytes set to zero, and leaves the world as it was: no device read, no allocation.
\<close>


theorem read_past_eof_zero_block:
  assumes "0 < block_size fs"
    and "(inode_file_size inode + block_size fs - 1) div block_size fs \<le> block_num"
  shows "ext4_read_file_block fs inode block_num buffer w
          = Some ((0, memset buffer 0 0 (block_size fs)), w)
       \<and> (\<forall>i<block_size fs. memset buffer 0 0 (block_size fs) i = 0)"
proof -
  have "u64 (inode_file_size inode + block_size fs - 1)
      \<le> inode_file_size inode + block_size fs - 1"
    by (simp add: u64_def)
  then have "u64 (inode_file_size inode + block_size fs - 1) div block_size fs
      \<le> (inode_file_size inode + block_size fs - 1) div block_size fs"
    by (rule div_le_mono)
  with assms show ?thesis
    by (simp add: ext4_read_file_block_def Let_def memset_def)
qed

theorem read_past_eof_zero_block_witness:
  "(0::nat) < block_size (demo_fs zero_dev 0x40)
   \<and> (inode_file_size (\<lambda>_. 0) + block_size (demo_fs zero_dev 0x40) - 1)
        div block_size (demo_fs zero_dev 0x40) \<le> 5
   \<and> ext4_read_file_block (demo_fs zero_dev 0x40) (\<lambda>_. 0) 5 (\<lambda>_. 7) plain_world
        = Some ((0, memset (\<lambda>_. 7) 0 0 (block_size (demo_fs zero_dev 0x40))), plain_world)
   \<and> memset (\<lambda>_. 7) 0 0 (block_size (demo_fs zero_dev 0x40)) 1023 = 0"
proof -
  have 1: "(0::nat) < block_size (demo_fs zero_dev 0x40)" by (simp add: demo_fs_def)
  have 2: "(inode_file_size (\<lambda>_. 0) + block_size (demo_fs zero_dev 0x40) - 1)
        div block_size (demo_fs zero_dev 0x40) \<le> 5"
    by (simp add: demo_fs_def inode_file_size_def i_size_lo_def i_size_high_def)
  note t = read_past_eof_zero_block[OF 1 2, of "\<lambda>_. 7" plain_world]
  have 3: "(1023::nat) < block_size (demo_fs zero_dev 0x40)" by (simp add: demo_fs_def)
  from t have "memset (\<lambda>_. 7) 0 0 (block_size (demo_fs zero_dev 0x40)) 1023 = 0"
    using 3 by blast
  with t 1 2 show ?thesis by blast
qed








end
